theory Spec2Isabelle
  imports Main "HOL-Library.AList" "HOL-Library.Sublist"
begin

section \<open>Constants and exceptions\<close>

text \<open>
  \<^verbatim>\<open>LOOKUP_SEP\<close> is Django's lookup separator; both the import and the fallback of
  \<^verbatim>\<open>utils.py\<close> and \<^verbatim>\<open>serializers.py\<close> give the two underscores.
\<close>

definition LOOKUP_SEP :: string where
  "LOOKUP_SEP = ''__''"

text \<open>
  The exceptions the modelled code can raise: the assertion of \<^verbatim>\<open>__init__\<close>,
  \<^verbatim>\<open>ChildNotSupported\<close> of \<^verbatim>\<open>extract_serializer_from_child\<close>, a failed dict
  lookup, a failed list index, \<^verbatim>\<open>.add\<close> on the string \<^verbatim>\<open>ALL_FIELDS\<close>, and a
  subscript of \<^verbatim>\<open>None\<close>.
\<close>

datatype error = AssertionError | ChildNotSupported | KeyError | IndexError
  | AttributeError | TypeError

text \<open>
  \<^verbatim>\<open>with suppress(E1, ...): body\<close>: an exception of a listed class abandons the body
  and leaves the state as it was before the body (the bodies modelled here raise before
  they mutate); any other exception propagates.
\<close>

definition suppress :: "error set \<Rightarrow> 'a \<Rightarrow> error + 'a \<Rightarrow> error + 'a" where
  "suppress errs before body =
     (case body of
        Inl e \<Rightarrow> if e \<in> errs then Inr before else Inl e
      | Inr after \<Rightarrow> Inr after)"

section \<open>The selection tree (\<^verbatim>\<open>dr_meta\<close>)\<close>

text \<open>
  The value under the key \<^verbatim>\<open>"fields"\<close> is either the string \<^verbatim>\<open>ALL_FIELDS\<close> or a
  set of names. A \<^verbatim>\<open>dr_meta\<close> dict has the three keys \<^verbatim>\<open>fields\<close>, \<^verbatim>\<open>omit\<close> and
  \<^verbatim>\<open>nested\<close>; \<^verbatim>\<open>nested\<close> is a \<^verbatim>\<open>defaultdict\<close>, kept here in insertion order.
\<close>

datatype field_set = ALL_FIELDS | FieldSet "string set"

datatype dr_meta =
  DrMeta (dr_fields: field_set) (dr_omit: "string set") (dr_nested: "(string \<times> dr_meta) list")

definition dynamic_read_meta :: dr_meta where
  "dynamic_read_meta = DrMeta (FieldSet {}) {} []"

text \<open>
  \<^verbatim>\<open>d["nested"][key]\<close> on the \<^verbatim>\<open>defaultdict\<close>: a missing key reads as a fresh
  \<^verbatim>\<open>dynamic_read_meta()\<close>, which is stored under the key.
\<close>

definition nested_getitem :: "(string \<times> dr_meta) list \<Rightarrow> string \<Rightarrow> dr_meta" where
  "nested_getitem d key = (case map_of d key of Some v \<Rightarrow> v | None \<Rightarrow> dynamic_read_meta)"

text \<open>
  The parser holds a reference \<^verbatim>\<open>field_meta\<close> into the tree under construction and
  mutates the node it points to. A reference is modelled as the path of keys from the
  root; \<open>modify_at path f root\<close> is the root after the mutation \<open>f\<close> of the node the
  path leads to.
\<close>

fun modify_at :: "string list \<Rightarrow> (dr_meta \<Rightarrow> error + dr_meta) \<Rightarrow> dr_meta \<Rightarrow> error + dr_meta" where
  "modify_at [] f m = f m"
| "modify_at (key # path) f m =
     (case modify_at path f (nested_getitem (dr_nested m) key) of
        Inl e \<Rightarrow> Inl e
      | Inr child \<Rightarrow> Inr (DrMeta (dr_fields m) (dr_omit m) (AList.update key child (dr_nested m))))"

text \<open>Reading the node a path leads to, without creating anything.\<close>

fun node_at :: "dr_meta \<Rightarrow> string list \<Rightarrow> dr_meta option" where
  "node_at m [] = Some m"
| "node_at m (key # path) =
     (case map_of (dr_nested m) key of None \<Rightarrow> None | Some child \<Rightarrow> node_at child path)"

text \<open>\<^verbatim>\<open>field_meta["fields"].add(field)\<close>: a \<^verbatim>\<open>str\<close> has no \<^verbatim>\<open>add\<close>.\<close>

definition fields_add :: "string \<Rightarrow> dr_meta \<Rightarrow> error + dr_meta" where
  "fields_add field m =
     (case dr_fields m of
        FieldSet s \<Rightarrow> Inr (DrMeta (FieldSet (insert field s)) (dr_omit m) (dr_nested m))
      | ALL_FIELDS \<Rightarrow> Inl AttributeError)"

text \<open>\<^verbatim>\<open>field_meta["fields"] = ALL_FIELDS\<close>\<close>

definition fields_set_all :: "dr_meta \<Rightarrow> error + dr_meta" where
  "fields_set_all m = Inr (DrMeta ALL_FIELDS (dr_omit m) (dr_nested m))"

text \<open>\<^verbatim>\<open>meta["omit"].add(field_to_omit)\<close>\<close>

definition omit_add :: "string \<Rightarrow> dr_meta \<Rightarrow> error + dr_meta" where
  "omit_add field m = Inr (DrMeta (dr_fields m) (insert field (dr_omit m)) (dr_nested m))"

section \<open>The selector parser (\<^verbatim>\<open>process_field_options\<close>)\<close>

text \<open>
  \<^verbatim>\<open>str.split(sep)\<close> for a non-empty separator: the occurrences of \<open>sep\<close> are found
  from the left without overlap; the result is never the empty list.
\<close>

function split_str :: "string \<Rightarrow> string \<Rightarrow> string \<Rightarrow> string list" where
  "split_str sep cur s =
     (if s = [] then [cur]
      else if sep \<noteq> [] \<and> take (length sep) s = sep
        then cur # split_str sep [] (drop (length sep) s)
      else split_str sep (cur @ [hd s]) (tl s))"
  by pat_completeness auto
termination
  by (relation "measure (\<lambda>(sep, cur, s). length s)") auto

declare split_str.simps [simp del]

definition split :: "string \<Rightarrow> string \<Rightarrow> string list" where
  "split s sep = split_str sep [] s"

text \<open>
  \<^verbatim>\<open>parent_info\<close> is \<^verbatim>\<open>None\<close> or the pair of the previous segment and the reference
  to the node it was recorded in. The node of the current segment is the root when
  \<^verbatim>\<open>parent_info\<close> is \<^verbatim>\<open>None\<close>, else \<^verbatim>\<open>parent_meta["nested"][parent_field]\<close>.
\<close>

type_synonym parent_info = "(string \<times> string list) option"

definition field_meta_ref :: "parent_info \<Rightarrow> string list" where
  "field_meta_ref parent_info =
     (case parent_info of
        None \<Rightarrow> []
      | Some (parent_field, parent_meta) \<Rightarrow> parent_meta @ [parent_field])"

text \<open>The inner loop over the segments of one include path (lines 88 to 95).\<close>

fun filter_loop :: "string list \<Rightarrow> parent_info \<Rightarrow> dr_meta \<Rightarrow> error + (dr_meta \<times> parent_info)" where
  "filter_loop [] parent_info root = Inr (root, parent_info)"
| "filter_loop (field # rest) parent_info root =
     (let field_meta = field_meta_ref parent_info in
      case modify_at field_meta (fields_add field) root of
        Inl e \<Rightarrow> Inl e
      | Inr root' \<Rightarrow> filter_loop rest (Some (field, field_meta)) root')"

text \<open>The inner loop over the segments of one omit path (lines 99 to 106).\<close>

fun omit_loop :: "string list \<Rightarrow> parent_info \<Rightarrow> dr_meta \<Rightarrow> error + (dr_meta \<times> parent_info)" where
  "omit_loop [] parent_info root = Inr (root, parent_info)"
| "omit_loop (field # rest) parent_info root =
     (let field_meta = field_meta_ref parent_info in
      case modify_at field_meta fields_set_all root of
        Inl e \<Rightarrow> Inl e
      | Inr root' \<Rightarrow> omit_loop rest (Some (field, field_meta)) root')"

text \<open>
  The body under \<^verbatim>\<open>suppress(IndexError)\<close> (lines 109 and 110): \<^verbatim>\<open>field_list[-1]\<close>
  raises on the empty list, before \<^verbatim>\<open>parent_info[1]\<close> is read.
\<close>

definition omit_last :: "string list \<Rightarrow> parent_info \<Rightarrow> dr_meta \<Rightarrow> error + dr_meta" where
  "omit_last field_list parent_info root =
     (if field_list = [] then Inl IndexError
      else let field_to_omit = last field_list in
        case parent_info of
          None \<Rightarrow> Inl TypeError
        | Some (parent_field, parent_meta) \<Rightarrow> modify_at parent_meta (omit_add field_to_omit) root)"

text \<open>One iteration of the outer omit loop (lines 97 to 110).\<close>

definition process_omit_path :: "string list \<Rightarrow> dr_meta \<Rightarrow> error + dr_meta" where
  "process_omit_path field_list root =
     (case omit_loop field_list None root of
        Inl e \<Rightarrow> Inl e
      | Inr (root', parent_info) \<Rightarrow>
          suppress {IndexError} root' (omit_last field_list parent_info root'))"

text \<open>One iteration of the outer include loop (lines 86 to 95).\<close>

definition process_filter_path :: "string list \<Rightarrow> dr_meta \<Rightarrow> error + dr_meta" where
  "process_filter_path field_list root =
     (case filter_loop field_list None root of
        Inl e \<Rightarrow> Inl e
      | Inr (root', parent_info) \<Rightarrow> Inr root')"

fun for_each :: "('a \<Rightarrow> 's \<Rightarrow> error + 's) \<Rightarrow> 'a list \<Rightarrow> 's \<Rightarrow> error + 's" where
  "for_each body [] st = Inr st"
| "for_each body (x # xs) st =
     (case body x st of Inl e \<Rightarrow> Inl e | Inr st' \<Rightarrow> for_each body xs st')"

definition process_field_options :: "string list \<Rightarrow> string list \<Rightarrow> error + dr_meta" where
  "process_field_options filter_fields omit_fields =
     (let filter_lists = map (\<lambda>each. split each LOOKUP_SEP) filter_fields;
          omit_lists = map (\<lambda>each. split each LOOKUP_SEP) omit_fields
      in case for_each process_filter_path filter_lists dynamic_read_meta of
           Inl e \<Rightarrow> Inl e
         | Inr dr_meta \<Rightarrow> for_each process_omit_path omit_lists dr_meta)"

section \<open>The serializer graph\<close>

text \<open>
  A field object of a serializer is a \<^verbatim>\<open>DynamicReadSerializerMixin\<close> instance, a
  \<^verbatim>\<open>ListSerializer\<close> around a child, or any other field. A serializer instance carries
  what the walk reads of it: the accessor names of the relations of
  \<^verbatim>\<open>self.__class__.Meta.model\<close> in iteration order, or \<^verbatim>\<open>None\<close> when the class has
  no \<^verbatim>\<open>Meta.model\<close>; the mapping \<^verbatim>\<open>self.get_fields()\<close> in iteration order; and the
  attribute \<^verbatim>\<open>dr_meta\<close>.
\<close>

datatype field_obj = OtherField | DynamicReadSerializer serializer | ListSerializer field_obj
and serializer =
  Serializer (meta_model_relations: "string list option")
    (get_fields: "(string \<times> field_obj) list") (dr_meta: "dr_meta option")

text \<open>
  \<^verbatim>\<open>get_relational_fields(cls)\<close> reads \<^verbatim>\<open>cls.Meta.model._meta.get_fields()\<close>: the
  attribute lookup raises \<^verbatim>\<open>AttributeError\<close> for a class without \<^verbatim>\<open>Meta.model\<close>.
  The result is a dict; the walk iterates over its keys.
\<close>

definition get_relational_fields :: "serializer \<Rightarrow> error + string list" where
  "get_relational_fields self =
     (case meta_model_relations self of
        None \<Rightarrow> Inl AttributeError
      | Some relational_fields \<Rightarrow> Inr relational_fields)"

definition extract_serializer_from_child :: "field_obj \<Rightarrow> error + serializer" where
  "extract_serializer_from_child child =
     (case child of
        DynamicReadSerializer s \<Rightarrow> Inr s
      | ListSerializer (DynamicReadSerializer s) \<Rightarrow> Inr s
      | _ \<Rightarrow> Inl ChildNotSupported)"

definition is_child_multiple :: "field_obj \<Rightarrow> bool" where
  "is_child_multiple child = (case child of ListSerializer c \<Rightarrow> True | _ \<Rightarrow> False)"

text \<open>
  \<^verbatim>\<open>extract_serializer_from_child\<close> returns a reference into the field object, so an
  assignment to the extracted serializer's attribute is seen through the field object:
  \<open>store_serializer child s\<close> is the field object \<open>child\<close> once its extracted
  serializer has become \<open>s\<close>.
\<close>

definition store_serializer :: "field_obj \<Rightarrow> serializer \<Rightarrow> field_obj" where
  "store_serializer child s =
     (case child of
        DynamicReadSerializer old \<Rightarrow> DynamicReadSerializer s
      | ListSerializer (DynamicReadSerializer old) \<Rightarrow> ListSerializer (DynamicReadSerializer s)
      | _ \<Rightarrow> child)"

section \<open>The field resolver (\<^verbatim>\<open>derive_desired_fields\<close>, \<^verbatim>\<open>fields\<close>)\<close>

text \<open>The body under \<^verbatim>\<open>suppress(ChildNotSupported, KeyError)\<close> (lines 140 to 143).\<close>

definition attach_dr_meta ::
  "string \<Rightarrow> dr_meta \<Rightarrow> (string \<times> field_obj) list \<Rightarrow> error + (string \<times> field_obj) list" where
  "attach_dr_meta field field_meta fields_map =
     (case map_of fields_map field of
        None \<Rightarrow> Inl KeyError
      | Some child \<Rightarrow>
          (case extract_serializer_from_child child of
             Inl e \<Rightarrow> Inl e
           | Inr nested_field \<Rightarrow>
               if dr_meta nested_field = None
               then Inr (AList.update field
                      (store_serializer child
                         (Serializer (meta_model_relations nested_field) (get_fields nested_field)
                            (Some field_meta)))
                      fields_map)
               else Inr fields_map))"

text \<open>The loop over \<^verbatim>\<open>self.dr_meta["nested"].items()\<close> (lines 138 to 143).\<close>

fun attach_loop ::
  "(string \<times> dr_meta) list \<Rightarrow> (string \<times> field_obj) list \<Rightarrow> error + (string \<times> field_obj) list" where
  "attach_loop [] fields_map = Inr fields_map"
| "attach_loop ((field, field_meta) # rest) fields_map =
     (case suppress {ChildNotSupported, KeyError} fields_map
             (attach_dr_meta field field_meta fields_map) of
        Inl e \<Rightarrow> Inl e
      | Inr fields_map' \<Rightarrow> attach_loop rest fields_map')"

text \<open>
  \<^verbatim>\<open>derive_desired_fields\<close> returns the set of desired names; the field objects it has
  mutated are returned with it.
\<close>

definition derive_desired_fields ::
  "dr_meta \<Rightarrow> (string \<times> field_obj) list \<Rightarrow> error + (string set \<times> (string \<times> field_obj) list)" where
  "derive_desired_fields self_dr_meta fields_map =
     (let field_names = set (map fst fields_map);
          desired_field_names =
            (if dr_omit self_dr_meta \<noteq> {} then field_names - dr_omit self_dr_meta
             else (case dr_fields self_dr_meta of
                     ALL_FIELDS \<Rightarrow> field_names
                   | FieldSet s \<Rightarrow> s \<inter> field_names))
      in case attach_loop (dr_nested self_dr_meta) fields_map of
           Inl e \<Rightarrow> Inl e
         | Inr fields_map' \<Rightarrow> Inr (desired_field_names, fields_map'))"

text \<open>
  The property \<^verbatim>\<open>fields\<close>: the entries of \<^verbatim>\<open>fields_map\<close> under the desired names.
  The source fills the \<^verbatim>\<open>BindingDict\<close> in the iteration order of a set; the walk only
  tests membership and looks names up, so the entries are kept here in the order of
  \<^verbatim>\<open>fields_map\<close>. A \<^verbatim>\<open>dr_meta\<close> dict is never empty, so it is falsy only when it is
  \<^verbatim>\<open>None\<close>.
\<close>

definition fields :: "serializer \<Rightarrow> error + (string \<times> field_obj) list" where
  "fields self =
     (let fields_map = get_fields self in
      case dr_meta self of
        None \<Rightarrow> Inr fields_map
      | Some m \<Rightarrow>
          (case derive_desired_fields m fields_map of
             Inl e \<Rightarrow> Inl e
           | Inr (field_names, fields_map') \<Rightarrow>
               Inr (filter (\<lambda>(name, obj). name \<in> field_names) fields_map')))"

section \<open>The relation graph walker (\<^verbatim>\<open>evaluate_select_prefetch\<close>)\<close>

text \<open>
  Lines 190 to 200: what one relational field with a selection-capable child adds to
  \<^verbatim>\<open>final_select\<close> and \<^verbatim>\<open>final_prefetch\<close>, from the result of the recursive call.
\<close>

definition merge_sub ::
  "bool \<Rightarrow> string \<Rightarrow> string list \<times> string list \<Rightarrow> string list \<times> string list
     \<Rightarrow> string list \<times> string list" where
  "merge_sub is_many own sub final =
     (case (sub, final) of
        ((sub_select_related, sub_prefetch_related), (final_select, final_prefetch)) \<Rightarrow>
          let (final_select1, final_prefetch1) =
                (if sub_select_related \<noteq> [] then
                   (if \<not> is_many then (final_select @ sub_select_related, final_prefetch)
                    else (final_select, final_prefetch @ sub_select_related))
                 else if \<not> is_many then (final_select @ [own], final_prefetch)
                 else (final_select, final_prefetch))
          in (if sub_prefetch_related \<noteq> [] then (final_select1, final_prefetch1 @ sub_prefetch_related)
              else if is_many then (final_select1, final_prefetch1 @ [own])
              else (final_select1, final_prefetch1)))"

text \<open>
  The walk recurses into field objects of \<^verbatim>\<open>self.fields\<close>. They are the objects of
  \<^verbatim>\<open>get_fields\<close>, some with a \<^verbatim>\<open>dr_meta\<close> attached, which does not change their
  size: the walk terminates on every serializer graph.
\<close>

lemma extract_size:
  "extract_serializer_from_child fo = Inr s \<Longrightarrow> size s < size fo"
  by (auto simp: extract_serializer_from_child_def split: field_obj.splits)

lemma store_size:
  "extract_serializer_from_child fo = Inr s \<Longrightarrow>
     size (store_serializer fo s') = size fo - size s + size s'"
  by (auto simp: extract_serializer_from_child_def store_serializer_def split: field_obj.splits)

lemma size_with_dr_meta:
  "size (Serializer (meta_model_relations s) (get_fields s) m) = size s"
  by (cases s) simp

definition objs_below :: "nat \<Rightarrow> (string \<times> field_obj) list \<Rightarrow> bool" where
  "objs_below n fm = list_all (\<lambda>(name, obj). size obj < n) fm"

lemma objs_below_update:
  "objs_below n fm \<Longrightarrow> size obj < n \<Longrightarrow> objs_below n (AList.update k obj fm)"
  by (induction fm) (auto simp: objs_below_def)

lemma objs_below_map_of:
  "objs_below n fm \<Longrightarrow> map_of fm k = Some obj \<Longrightarrow> size obj < n"
  by (induction fm) (auto simp: objs_below_def split: if_splits)

lemma objs_below_filter:
  "objs_below n fm \<Longrightarrow> objs_below n (filter P fm)"
  by (induction fm) (auto simp: objs_below_def)

lemma attach_dr_meta_below:
  "objs_below n fm \<Longrightarrow> attach_dr_meta field field_meta fm = Inr fm' \<Longrightarrow> objs_below n fm'"
  apply (auto simp: attach_dr_meta_def split: option.splits sum.splits if_splits)
  apply (rule objs_below_update)
   apply assumption
  apply (frule (1) objs_below_map_of)
  apply (frule extract_size)
  apply (simp only: store_size size_with_dr_meta)
  done

lemma attach_loop_below:
  "objs_below n fm \<Longrightarrow> attach_loop ns fm = Inr fm' \<Longrightarrow> objs_below n fm'"
proof (induction ns arbitrary: fm)
  case Nil
  then show ?case by simp
next
  case (Cons a ns)
  obtain field field_meta where a: "a = (field, field_meta)" by (cases a)
  from Cons.prems(2) obtain fm1 where
    s: "suppress {ChildNotSupported, KeyError} fm (attach_dr_meta field field_meta fm) = Inr fm1"
    and r: "attach_loop ns fm1 = Inr fm'"
    by (auto simp: a split: sum.splits)
  have "objs_below n fm1"
    using s Cons.prems(1) attach_dr_meta_below[of n fm field field_meta]
    by (auto simp: suppress_def split: sum.splits if_splits)
  then show ?case using Cons.IH r by blast
qed

lemma get_fields_below: "objs_below (size s) (get_fields s)"
proof (cases s)
  case (Serializer r fm m)
  have "list_all (\<lambda>(name, obj). size obj < Suc (size_list (size_prod (\<lambda>x. 0) size) fm)) fm"
    by (induction fm) (auto simp: list_all_iff)
  then show ?thesis using Serializer by (simp add: objs_below_def)
qed

lemma fields_below: "fields s = Inr flds \<Longrightarrow> objs_below (size s) flds"
  using get_fields_below[of s]
  by (auto simp: fields_def derive_desired_fields_def Let_def
      split: option.splits sum.splits dest: attach_loop_below intro: objs_below_filter)

lemma for_each_cong [fundef_cong]:
  "xs = ys \<Longrightarrow> st = st' \<Longrightarrow> (\<And>x s. x \<in> set ys \<Longrightarrow> f x s = g x s)
    \<Longrightarrow> for_each f xs st = for_each g ys st'"
proof (induction ys arbitrary: xs st st')
  case Nil
  then show ?case by simp
next
  case (Cons y ys)
  then show ?case by (auto split: sum.splits)
qed

function evaluate_select_prefetch ::
  "serializer \<Rightarrow> string \<Rightarrow> error + (string list \<times> string list)" where
  "evaluate_select_prefetch self accessor_prefix =
     (case get_relational_fields self of
        Inl e \<Rightarrow> Inl e
      | Inr relational_fields \<Rightarrow>
          (case fields self of
             Inl e \<Rightarrow> Inl e
           | Inr flds \<Rightarrow>
               for_each
                 (\<lambda>field_name final.
                    case map_of flds field_name of
                      None \<Rightarrow> Inr final
                    | Some field_obj \<Rightarrow>
                        let is_many = is_child_multiple field_obj in
                        suppress {ChildNotSupported} final
                          (case extract_serializer_from_child field_obj of
                             Inl e \<Rightarrow> Inl e
                           | Inr child \<Rightarrow>
                               (case evaluate_select_prefetch child
                                       (accessor_prefix @ field_name @ LOOKUP_SEP) of
                                  Inl e \<Rightarrow> Inl e
                                | Inr sub \<Rightarrow>
                                    Inr (merge_sub is_many (accessor_prefix @ field_name) sub
                                           final))))
                 relational_fields ([], [])))"
  by pat_completeness auto
termination evaluate_select_prefetch
  apply (relation "measure (\<lambda>(s, p). size s)")
   apply simp
  apply (auto dest!: fields_below extract_size objs_below_map_of)
  done

declare evaluate_select_prefetch.simps [simp del]

section \<open>Construction (\<^verbatim>\<open>DynamicReadSerializerMixin.__init__\<close>)\<close>

text \<open>
  A serializer class is given by what its instances are built from: the relational
  accessor names of its model (\<^verbatim>\<open>None\<close> without \<^verbatim>\<open>Meta.model\<close>) and its field
  mapping. The keyword arguments
  \<^verbatim>\<open>filter_fields\<close> and \<^verbatim>\<open>omit_fields\<close> default to \<^verbatim>\<open>None\<close>; \<^verbatim>\<open>None\<close> and the
  empty sequence are falsy.
\<close>

type_synonym serializer_class = "string list option \<times> (string \<times> field_obj) list"

definition truthy :: "string list option \<Rightarrow> bool" where
  "truthy v = (case v of None \<Rightarrow> False | Some xs \<Rightarrow> xs \<noteq> [])"

definition as_tuple :: "string list option \<Rightarrow> string list" where
  "as_tuple v = (if \<not> truthy v then [] else the v)"

definition init ::
  "serializer_class \<Rightarrow> string list option \<Rightarrow> string list option \<Rightarrow> error + serializer" where
  "init cls filter_fields omit_fields =
     (if truthy filter_fields \<and> truthy omit_fields then Inl AssertionError
      else
        let filter_tuple = as_tuple filter_fields;
            omit_tuple = as_tuple omit_fields
        in if filter_tuple \<noteq> [] \<or> omit_tuple \<noteq> [] then
             (case process_field_options filter_tuple omit_tuple of
                Inl e \<Rightarrow> Inl e
              | Inr m \<Rightarrow> Inr (Serializer (fst cls) (snd cls) (Some m)))
           else Inr (Serializer (fst cls) (snd cls) None))"

text \<open>The metaclass property \<^verbatim>\<open>all_select_prefetch\<close>: \<^verbatim>\<open>cls().evaluate_select_prefetch()\<close>.\<close>

definition all_select_prefetch :: "serializer_class \<Rightarrow> error + (string list \<times> string list)" where
  "all_select_prefetch cls =
     (case init cls None None of
        Inl e \<Rightarrow> Inl e
      | Inr self \<Rightarrow> evaluate_select_prefetch self [])"

section \<open>Filtered hints (\<^verbatim>\<open>get_prefetch_select\<close>)\<close>

text \<open>
  \<^verbatim>\<open>s.startswith(pre)\<close>, and the test of lines 30, 37, 52 and 63:
  \<^verbatim>\<open>each.startswith(field) or field.startswith(each)\<close>.
\<close>

definition startswith :: "string \<Rightarrow> string \<Rightarrow> bool" where
  "startswith s pre = (take (length pre) s = pre)"

definition related :: "string \<Rightarrow> string \<Rightarrow> bool" where
  "related each field = (startswith each field \<or> startswith field each)"

text \<open>
  The first argument is the value read from \<^verbatim>\<open>serializer_class.all_select_prefetch\<close>,
  the only use the function makes of the class.
\<close>

definition get_prefetch_select ::
  "string list \<times> string list \<Rightarrow> string list \<Rightarrow> string list \<Rightarrow> string list \<times> string list" where
  "get_prefetch_select class_all_select_prefetch filter_fields omit_fields =
     (case class_all_select_prefetch of (all_select, all_prefetch) \<Rightarrow>
        if \<not> (filter_fields \<noteq> [] \<or> omit_fields \<noteq> []) then (all_select, all_prefetch)
        else if filter_fields \<noteq> [] then
          fold (\<lambda>field (final_select, final_prefetch).
                  (final_select @ filter (\<lambda>each. related each field) all_select,
                   final_prefetch @ filter (\<lambda>each. related each field) all_prefetch))
            filter_fields ([], [])
        else
          let final_select = (if [] = ([] :: string list) then all_select else []);
              final_prefetch = (if [] = ([] :: string list) then all_prefetch else [])
          in (filter (\<lambda>each. \<not> list_ex (\<lambda>field. related each field) omit_fields) final_select,
              filter (\<lambda>each. \<not> list_ex (\<lambda>field. related each field) omit_fields) final_prefetch))"

section \<open>Auxiliary definitions for the statements below\<close>

text \<open>
  The body of the loop of \<^verbatim>\<open>evaluate_select_prefetch\<close> (lines 176 to 200) under a
  name, and the walk as the loop of that body.
\<close>

definition walk_field ::
  "(string \<times> field_obj) list \<Rightarrow> string \<Rightarrow> string \<Rightarrow> string list \<times> string list
     \<Rightarrow> error + (string list \<times> string list)" where
  "walk_field flds accessor_prefix field_name final =
     (case map_of flds field_name of
        None \<Rightarrow> Inr final
      | Some field_obj \<Rightarrow>
          let is_many = is_child_multiple field_obj in
          suppress {ChildNotSupported} final
            (case extract_serializer_from_child field_obj of
               Inl e \<Rightarrow> Inl e
             | Inr child \<Rightarrow>
                 (case evaluate_select_prefetch child (accessor_prefix @ field_name @ LOOKUP_SEP) of
                    Inl e \<Rightarrow> Inl e
                  | Inr sub \<Rightarrow> Inr (merge_sub is_many (accessor_prefix @ field_name) sub final))))"

text \<open>
  A name is inert for a field mapping when it is not a key, or its field object is not
  selection-capable: the attachment step for it changes nothing, and the steps for other
  names keep it inert.
\<close>

definition inert :: "(string \<times> field_obj) list \<Rightarrow> string \<Rightarrow> bool" where
  "inert fm field =
     (case map_of fm field of None \<Rightarrow> True
      | Some child \<Rightarrow> extract_serializer_from_child child = Inl ChildNotSupported)"


text \<open>The node a reference leads to, as the mutation sees it.\<close>

definition node_or_default :: "dr_meta \<Rightarrow> string list \<Rightarrow> dr_meta" where
  "node_or_default m path = (case node_at m path of Some n \<Rightarrow> n | None \<Rightarrow> dynamic_read_meta)"

text \<open>
  Where a node has a non-empty \<^verbatim>\<open>omit\<close>, its \<^verbatim>\<open>fields\<close> entry is
  \<^verbatim>\<open>ALL_FIELDS\<close>, in the whole tree. The parser builds only such trees: an omit loop
  marks the node before the final segment is added to its \<^verbatim>\<open>omit\<close>, and the include
  loops run before all omit loops.
\<close>

fun omit_mode :: "dr_meta \<Rightarrow> bool" where
  "omit_mode (DrMeta f om ns) =
     ((om = {} \<or> f = ALL_FIELDS) \<and> list_all (\<lambda>(k, c). omit_mode c) ns)"

text \<open>
  Every serializer class of the graph has a \<^verbatim>\<open>Meta.model\<close>, so that
  \<^verbatim>\<open>get_relational_fields\<close> returns for each of them.
\<close>

fun models_declared_obj :: "field_obj \<Rightarrow> bool"
  and models_declared :: "serializer \<Rightarrow> bool" where
  "models_declared_obj OtherField = True"
| "models_declared_obj (DynamicReadSerializer s) = models_declared s"
| "models_declared_obj (ListSerializer child) = models_declared_obj child"
| "models_declared (Serializer relations fm m) =
     (relations \<noteq> None \<and> list_all (\<lambda>(name, obj). models_declared_obj obj) fm)"

text \<open>A field mapping of three plain fields, for the concrete instances below.\<close>

definition abc_fields :: "(string \<times> field_obj) list" where
  "abc_fields = [(''a'', OtherField), (''b'', OtherField), (''c'', OtherField)]"

text \<open>
  The Book scenario: \<^verbatim>\<open>author\<close> is a to-one nested serializer that exposes no
  relation, \<^verbatim>\<open>reviews\<close> is a \<^verbatim>\<open>many=True\<close> nested serializer whose child exposes the
  to-one nested serializer \<^verbatim>\<open>reviewer\<close>.
\<close>

definition reviewer_class :: serializer_class where
  "reviewer_class = (Some [''review_set''], [(''name'', OtherField)])"

definition review_class :: serializer_class where
  "review_class =
     (Some [''book'', ''reviewer''],
      [(''text'', OtherField),
       (''reviewer'', DynamicReadSerializer (Serializer (fst reviewer_class) (snd reviewer_class) None))])"

definition author_class :: serializer_class where
  "author_class = (Some [''book_set''], [(''name'', OtherField)])"

definition book_class :: serializer_class where
  "book_class =
     (Some [''author'', ''reviews''],
      [(''title'', OtherField),
       (''author'', DynamicReadSerializer (Serializer (fst author_class) (snd author_class) None)),
       (''reviews'', ListSerializer (DynamicReadSerializer
          (Serializer (fst review_class) (snd review_class) None)))])"

text \<open>
  A serializer whose two relational fields are exposed through field objects that are
  not selection-capable, one single-valued and one a \<^verbatim>\<open>ListSerializer\<close>.
\<close>

definition opaque_example :: serializer where
  "opaque_example =
     Serializer (Some [''publisher'', ''tags''])
       [(''publisher'', OtherField), (''tags'', ListSerializer OtherField)] None"

text \<open>
  A serializer whose only relation is a \<^verbatim>\<open>many=True\<close> nested serializer without
  relations of its own.
\<close>

definition comments_example :: serializer where
  "comments_example =
     Serializer (Some [''comments''])
       [(''comments'', ListSerializer (DynamicReadSerializer
          (Serializer (Some []) [(''text'', OtherField)] None)))] None"

section \<open>Properties of the filtered hints\<close>

lemma startswith_prefix: "startswith s pre = prefix pre s"
proof
  assume "startswith s pre"
  then have "s = pre @ drop (length pre) s"
    by (metis startswith_def append_take_drop_id)
  then show "prefix pre s" by (metis prefixI)
next
  assume "prefix pre s"
  then show "startswith s pre" by (auto simp: startswith_def prefix_def)
qed

lemma related_prefix: "related each field = (prefix field each \<or> prefix each field)"
  by (simp add: related_def startswith_prefix)

lemma filter_fold_fst:
  "fst (fold (\<lambda>field (fs, fp). (fs @ filter (\<lambda>each. R each field) a, fp @ filter (\<lambda>each. R each field) p)) ff (s0, p0))
     = s0 @ concat (map (\<lambda>field. filter (\<lambda>each. R each field) a) ff)"
  by (induction ff arbitrary: s0 p0) auto

lemma filter_fold_snd:
  "snd (fold (\<lambda>field (fs, fp). (fs @ filter (\<lambda>each. R each field) a, fp @ filter (\<lambda>each. R each field) p)) ff (s0, p0))
     = p0 @ concat (map (\<lambda>field. filter (\<lambda>each. R each field) p) ff)"
  by (induction ff arbitrary: s0 p0) auto

lemma get_prefetch_select_filter:
  "filter_fields \<noteq> [] \<Longrightarrow>
   get_prefetch_select (a, p) filter_fields omit_fields =
     (concat (map (\<lambda>field. filter (\<lambda>each. related each field) a) filter_fields),
      concat (map (\<lambda>field. filter (\<lambda>each. related each field) p) filter_fields))"
  by (simp add: get_prefetch_select_def prod_eq_iff filter_fold_fst filter_fold_snd)

lemma gps_author_example: "get_prefetch_select ([''author''], [''reviews'', ''reviews.reviewer'']) [''author''] [] =
     ([''author''], [])"
    by (simp add: get_prefetch_select_def related_def startswith_def)

lemma gps_filter_set_fst:
  "filter_fields \<noteq> [] \<Longrightarrow>
   set (fst (get_prefetch_select (a, p) filter_fields omit_fields)) =
     {each \<in> set a. \<exists>field \<in> set filter_fields. prefix each field \<or> prefix field each}"
  by (simp add: get_prefetch_select_filter related_prefix) blast

lemma gps_filter_set_snd:
  "filter_fields \<noteq> [] \<Longrightarrow>
   set (snd (get_prefetch_select (a, p) filter_fields omit_fields)) =
     {each \<in> set p. \<exists>field \<in> set filter_fields. prefix each field \<or> prefix field each}"
  by (simp add: get_prefetch_select_filter related_prefix) blast

lemma not_list_ex_related:
  "(\<not> list_ex (\<lambda>field. related each field) omit_fields) =
   (\<not> (\<exists>field \<in> set omit_fields. prefix each field \<or> prefix field each))"
  by (simp add: list_ex_iff related_prefix) blast

lemma gps_omit:
  "omit_fields \<noteq> [] \<Longrightarrow>
   get_prefetch_select (a, p) [] omit_fields =
     (filter (\<lambda>each. \<not> (\<exists>field \<in> set omit_fields. prefix each field \<or> prefix field each)) a,
      filter (\<lambda>each. \<not> (\<exists>field \<in> set omit_fields. prefix each field \<or> prefix field each)) p)"
  by (simp add: get_prefetch_select_def not_list_ex_related)

lemma gps_none: "get_prefetch_select (a, p) [] [] = (a, p)"
  by (simp add: get_prefetch_select_def)

text \<open>
  Claim C5. \<^verbatim>\<open>get_prefetch_select\<close> filters the unrestricted hint lists of the class.
  With an include list, the kept entries of each list are, as a set, exactly those that
  are a prefix of, or have as a prefix, some requested path. With an omit list (and no
  include list) the result is each list without the entries that stand in that relation
  to some omitted path. With neither, the unrestricted lists are returned. For the
  unrestricted lists \<^verbatim>\<open>["author"]\<close> and \<^verbatim>\<open>["reviews", "reviews.reviewer"]\<close> and the
  include tuple \<^verbatim>\<open>("author",)\<close> the result is \<^verbatim>\<open>["author"]\<close> and the empty list.
\<close>

theorem tier2_filtering:
  "(filter_fields \<noteq> [] \<longrightarrow>
      set (fst (get_prefetch_select (all_select, all_prefetch) filter_fields omit_fields)) =
        {each \<in> set all_select. \<exists>field \<in> set filter_fields. prefix each field \<or> prefix field each} \<and>
      set (snd (get_prefetch_select (all_select, all_prefetch) filter_fields omit_fields)) =
        {each \<in> set all_prefetch. \<exists>field \<in> set filter_fields. prefix each field \<or> prefix field each}) \<and>
   (filter_fields = [] \<and> omit_fields \<noteq> [] \<longrightarrow>
      get_prefetch_select (all_select, all_prefetch) filter_fields omit_fields =
        (filter (\<lambda>each. \<not> (\<exists>field \<in> set omit_fields. prefix each field \<or> prefix field each)) all_select,
         filter (\<lambda>each. \<not> (\<exists>field \<in> set omit_fields. prefix each field \<or> prefix field each)) all_prefetch)) \<and>
   (filter_fields = [] \<and> omit_fields = [] \<longrightarrow>
      get_prefetch_select (all_select, all_prefetch) filter_fields omit_fields =
        (all_select, all_prefetch)) \<and>
   get_prefetch_select ([''author''], [''reviews'', ''reviews.reviewer'']) [''author''] [] =
     ([''author''], [])"
  using gps_filter_set_fst[of filter_fields all_select all_prefetch omit_fields]
    gps_filter_set_snd[of filter_fields all_select all_prefetch omit_fields]
    gps_omit[of omit_fields all_select all_prefetch] gps_none[of all_select all_prefetch] gps_author_example
  by blast

theorem tier2_filtering_witness:
  "[''reviews__reviewer''] \<noteq> ([] :: string list) \<and>
   set (snd (get_prefetch_select ([''author''], [''reviews'', ''reviews__reviewer''])
          [''reviews__reviewer''] [])) = {''reviews'', ''reviews__reviewer''} \<and>
   ([] :: string list) = [] \<and> [''reviews''] \<noteq> ([] :: string list) \<and>
   get_prefetch_select ([''author''], [''reviews'', ''reviews__reviewer'']) [] [''reviews''] =
     ([''author''], []) \<and>
   get_prefetch_select ([''author''], [''reviews'', ''reviews__reviewer'']) [] [] =
     ([''author''], [''reviews'', ''reviews__reviewer''])"
proof -
  have ne: "[''reviews__reviewer''] \<noteq> ([] :: string list)" by simp
  have ne2: "([] :: string list) = [] \<and> [''reviews''] \<noteq> ([] :: string list)" by simp
  have e: "([] :: string list) = [] \<and> ([] :: string list) = []" by simp
  have "set (snd (get_prefetch_select ([''author''], [''reviews'', ''reviews__reviewer''])
          [''reviews__reviewer''] [])) =
        {each \<in> set [''reviews'', ''reviews__reviewer''].
           \<exists>field \<in> set [''reviews__reviewer'']. prefix each field \<or> prefix field each}"
    using tier2_filtering [of "[''reviews__reviewer'']" "[''author'']"
        "[''reviews'', ''reviews__reviewer'']" "[]"] ne by blast
  also have "\<dots> = {''reviews'', ''reviews__reviewer''}"
    unfolding set_filter [symmetric] by simp
  finally have a: "set (snd (get_prefetch_select ([''author''], [''reviews'', ''reviews__reviewer''])
          [''reviews__reviewer''] [])) = {''reviews'', ''reviews__reviewer''}" .
  have "get_prefetch_select ([''author''], [''reviews'', ''reviews__reviewer'']) [] [''reviews''] =
     (filter (\<lambda>each. \<not> (\<exists>field \<in> set [''reviews'']. prefix each field \<or> prefix field each)) [''author''],
      filter (\<lambda>each. \<not> (\<exists>field \<in> set [''reviews'']. prefix each field \<or> prefix field each))
        [''reviews'', ''reviews__reviewer''])"
    using tier2_filtering [of "[]" "[''author'']" "[''reviews'', ''reviews__reviewer'']"
        "[''reviews'']"] ne2 by blast
  then have b: "get_prefetch_select ([''author''], [''reviews'', ''reviews__reviewer'']) []
       [''reviews''] = ([''author''], [])"
    by simp
  have c: "get_prefetch_select ([''author''], [''reviews'', ''reviews__reviewer'']) [] [] =
     ([''author''], [''reviews'', ''reviews__reviewer''])"
    using tier2_filtering [of "[]" "[''author'']" "[''reviews'', ''reviews__reviewer'']" "[]"] e
    by blast
  show ?thesis using ne ne2 a b c by blast
qed

lemma gps_auth_example:
  "get_prefetch_select ([''author''], []) [''auth''] [] = ([''author''], [])"
  by (simp add: get_prefetch_select_def related_def startswith_def)

lemma gps_auth_drops_reviews:
  "get_prefetch_select ([''author''], [''reviews'']) [''auth''] [] = ([''author''], [])"
  by (simp add: get_prefetch_select_def related_def startswith_def)

lemma split_auth: "split ''auth'' LOOKUP_SEP = [''auth'']"
  by (simp add: split_def LOOKUP_SEP_def split_str.simps)

lemma split_author: "split ''author'' LOOKUP_SEP = [''author'']"
  by (simp add: split_def LOOKUP_SEP_def split_str.simps)

text \<open>
  Claim C10. The comparison is between raw strings, not between sequences of path
  segments. The include entry \<^verbatim>\<open>"auth"\<close> is a proper character prefix of the accessor
  path \<^verbatim>\<open>"author"\<close> and does not end at a separator; as sequences of segments neither
  is a prefix of the other. For that include entry the accessor path \<^verbatim>\<open>author\<close> is
  kept and the accessor path \<^verbatim>\<open>reviews\<close> is dropped. In general, with an include list,
  an entry is in the result exactly when it is an unrestricted entry and is a character
  prefix of, or has as a character prefix, some include entry.
\<close>

theorem raw_prefix_match:
  "\<not> prefix (''auth'' @ LOOKUP_SEP) ''author'' \<and> ''auth'' \<noteq> ''author'' \<and>
   get_prefetch_select ([''author''], []) [''auth''] [] = ([''author''], []) \<and>
   (\<forall>each field. each \<in> set all_select \<and> field \<in> set filter_fields \<and> prefix field each
      \<longrightarrow> each \<in> set (fst (get_prefetch_select (all_select, all_prefetch) filter_fields omit_fields))) \<and>
   prefix ''auth'' ''author'' \<and>
   \<not> prefix (split ''auth'' LOOKUP_SEP) (split ''author'' LOOKUP_SEP) \<and>
   \<not> prefix (split ''author'' LOOKUP_SEP) (split ''auth'' LOOKUP_SEP) \<and>
   get_prefetch_select ([''author''], [''reviews'']) [''auth''] [] = ([''author''], []) \<and>
   (filter_fields \<noteq> [] \<longrightarrow>
      (\<forall>each. each \<in> set (fst (get_prefetch_select (all_select, all_prefetch) filter_fields omit_fields)) =
         (each \<in> set all_select \<and>
          (\<exists>field \<in> set filter_fields. prefix field each \<or> prefix each field))) \<and>
      (\<forall>each. each \<in> set (snd (get_prefetch_select (all_select, all_prefetch) filter_fields omit_fields)) =
         (each \<in> set all_prefetch \<and>
          (\<exists>field \<in> set filter_fields. prefix field each \<or> prefix each field))))"
proof -
  have 1: "\<not> prefix (''auth'' @ LOOKUP_SEP) ''author''" by (simp add: LOOKUP_SEP_def)
  have 2: "''auth'' \<noteq> ''author''" by simp
  have 3: "get_prefetch_select ([''author''], []) [''auth''] [] = ([''author''], [])"
    by (rule gps_auth_example)
  have 4: "each \<in> set (fst (get_prefetch_select (all_select, all_prefetch) filter_fields omit_fields))"
    if a: "each \<in> set all_select \<and> field \<in> set filter_fields \<and> prefix field each"
    for each field
  proof -
    from a have ne: "filter_fields \<noteq> []" by auto
    show ?thesis
      using a by (simp add: get_prefetch_select_filter [OF ne] related_prefix) blast
  qed
  have 5: "prefix ''auth'' ''author''" by simp
  have 6: "\<not> prefix (split ''auth'' LOOKUP_SEP) (split ''author'' LOOKUP_SEP)"
    by (simp add: split_auth split_author)
  have 7: "\<not> prefix (split ''author'' LOOKUP_SEP) (split ''auth'' LOOKUP_SEP)"
    by (simp add: split_auth split_author)
  have 8: "get_prefetch_select ([''author''], [''reviews'']) [''auth''] [] = ([''author''], [])"
    by (rule gps_auth_drops_reviews)
  have 9: "each \<in> set (fst (get_prefetch_select (all_select, all_prefetch) filter_fields omit_fields)) =
         (each \<in> set all_select \<and>
          (\<exists>field \<in> set filter_fields. prefix field each \<or> prefix each field))"
    if ne: "filter_fields \<noteq> []" for each
    by (auto simp: get_prefetch_select_filter [OF ne] related_prefix)
  have 10: "each \<in> set (snd (get_prefetch_select (all_select, all_prefetch) filter_fields omit_fields)) =
         (each \<in> set all_prefetch \<and>
          (\<exists>field \<in> set filter_fields. prefix field each \<or> prefix each field))"
    if ne: "filter_fields \<noteq> []" for each
    by (auto simp: get_prefetch_select_filter [OF ne] related_prefix)
  show ?thesis
    apply (intro conjI allI impI)
    using 1 apply assumption
    using 2 apply assumption
    using 3 apply assumption
    using 4 apply blast
    using 5 apply assumption
    using 6 apply assumption
    using 7 apply assumption
    using 8 apply assumption
    using 9 apply blast
    using 10 apply blast
    done
qed

theorem raw_prefix_match_witness:
  "''author'' \<in> set [''author'', ''reviews''] \<and> ''auth'' \<in> set [''auth''] \<and>
   prefix ''auth'' ''author'' \<and> [''auth''] \<noteq> ([] :: string list) \<and>
   ''author'' \<in> set (fst (get_prefetch_select ([''author'', ''reviews''], [''reviews''])
                            [''auth''] [])) \<and>
   ''reviews'' \<notin> set (fst (get_prefetch_select ([''author'', ''reviews''], [''reviews''])
                             [''auth''] [])) \<and>
   ''reviews'' \<notin> set (snd (get_prefetch_select ([''author'', ''reviews''], [''reviews''])
                             [''auth''] []))"
proof -
  have h: "''author'' \<in> set [''author'', ''reviews''] \<and> ''auth'' \<in> set [''auth''] \<and>
      prefix ''auth'' ''author''"
    by simp
  have ne: "[''auth''] \<noteq> ([] :: string list)" by simp
  note inst = raw_prefix_match [of "[''author'', ''reviews'']" "[''auth'']" "[''reviews'']" "[]"]
  have k: "''author'' \<in> set (fst (get_prefetch_select ([''author'', ''reviews''], [''reviews''])
      [''auth''] []))"
    using inst h by blast
  have f: "''reviews'' \<in> set (fst (get_prefetch_select ([''author'', ''reviews''], [''reviews''])
        [''auth''] [])) =
      (''reviews'' \<in> set [''author'', ''reviews''] \<and>
       (\<exists>field \<in> set [''auth'']. prefix field ''reviews'' \<or> prefix ''reviews'' field))"
    using inst ne by blast
  have g: "''reviews'' \<in> set (snd (get_prefetch_select ([''author'', ''reviews''], [''reviews''])
        [''auth''] [])) =
      (''reviews'' \<in> set [''reviews''] \<and>
       (\<exists>field \<in> set [''auth'']. prefix field ''reviews'' \<or> prefix ''reviews'' field))"
    using inst ne by blast
  have d1: "''reviews'' \<notin> set (fst (get_prefetch_select ([''author'', ''reviews''], [''reviews''])
      [''auth''] []))"
    unfolding f by simp
  have d2: "''reviews'' \<notin> set (snd (get_prefetch_select ([''author'', ''reviews''], [''reviews''])
      [''auth''] []))"
    unfolding g by simp
  show ?thesis using h ne k d1 d2 by blast
qed

section \<open>Properties of the field resolver\<close>

lemma extract_Inl: "extract_serializer_from_child child = Inl e \<Longrightarrow> e = ChildNotSupported"
  by (auto simp: extract_serializer_from_child_def split: field_obj.splits)

lemma attach_step_total:
  "\<exists>fm'. suppress {ChildNotSupported, KeyError} fm (attach_dr_meta field field_meta fm) = Inr fm'"
  by (auto simp: suppress_def attach_dr_meta_def split: option.splits sum.splits dest: extract_Inl)

lemma attach_loop_total: "\<exists>fm'. attach_loop ns fm = Inr fm'"
proof (induction ns arbitrary: fm)
  case Nil
  show ?case by simp
next
  case (Cons a ns)
  obtain field field_meta where a: "a = (field, field_meta)" by (cases a)
  obtain fm1 where "suppress {ChildNotSupported, KeyError} fm (attach_dr_meta field field_meta fm) = Inr fm1"
    using attach_step_total by blast
  then show ?case using Cons.IH [of fm1] by (simp add: a)
qed

lemma derive_desired_fields_result:
  "\<exists>fm'. derive_desired_fields S fm =
     Inr (if dr_omit S \<noteq> {} then set (map fst fm) - dr_omit S
          else (case dr_fields S of ALL_FIELDS \<Rightarrow> set (map fst fm)
                | FieldSet s \<Rightarrow> s \<inter> set (map fst fm)), fm')"
proof -
  obtain fm' where "attach_loop (dr_nested S) fm = Inr fm'"
    using attach_loop_total by blast
  then show ?thesis by (simp add: derive_desired_fields_def Let_def split: field_set.splits)
qed

text \<open>
  Claim C9. A non-empty \<^verbatim>\<open>omit\<close> takes precedence: the desired set is the candidate
  names minus \<^verbatim>\<open>omit\<close>, and the whole result is the same whatever the \<^verbatim>\<open>fields\<close>
  entry is, so the \<^verbatim>\<open>fields\<close> entry only matters when \<^verbatim>\<open>omit\<close> is empty.
\<close>

theorem omit_precedence:
  "dr_omit S \<noteq> {} \<Longrightarrow>
     (\<exists>fm'. derive_desired_fields S fm = Inr (set (map fst fm) - dr_omit S, fm')) \<and>
     derive_desired_fields (DrMeta any_fields (dr_omit S) (dr_nested S)) fm =
       derive_desired_fields S fm"
proof -
  assume ne: "dr_omit S \<noteq> {}"
  obtain fm' where "attach_loop (dr_nested S) fm = Inr fm'"
    using attach_loop_total by blast
  then show ?thesis using ne by (simp add: derive_desired_fields_def Let_def)
qed

theorem omit_precedence_witness:
  "dr_omit (DrMeta (FieldSet {''a''}) {''b''} []) \<noteq> {} \<and>
   (\<exists>fm'. derive_desired_fields (DrMeta (FieldSet {''a''}) {''b''} []) abc_fields =
      Inr (set (map fst abc_fields) - {''b''}, fm')) \<and>
   derive_desired_fields (DrMeta ALL_FIELDS {''b''} []) abc_fields =
     derive_desired_fields (DrMeta (FieldSet {''a''}) {''b''} []) abc_fields"
  using omit_precedence [of "DrMeta (FieldSet {''a''}) {''b''} []" abc_fields ALL_FIELDS]
  by simp

lemma attach_step_inert_same:
  "inert fm field \<Longrightarrow>
     suppress {ChildNotSupported, KeyError} fm (attach_dr_meta field field_meta fm) = Inr fm"
  by (auto simp: inert_def suppress_def attach_dr_meta_def split: option.splits)

lemma attach_step_keeps_inert:
  "inert fm field \<Longrightarrow>
   suppress {ChildNotSupported, KeyError} fm (attach_dr_meta other other_meta fm) = Inr fm' \<Longrightarrow>
   inert fm' field"
proof (cases "other = field")
  case True
  assume "inert fm field"
    and "suppress {ChildNotSupported, KeyError} fm (attach_dr_meta other other_meta fm) = Inr fm'"
  then show ?thesis using attach_step_inert_same [of fm field other_meta] True by simp
next
  case False
  assume i: "inert fm field"
    and s: "suppress {ChildNotSupported, KeyError} fm (attach_dr_meta other other_meta fm) = Inr fm'"
  from s have "fm' = fm \<or> (\<exists>v. fm' = AList.update other v fm)"
    by (auto simp: suppress_def attach_dr_meta_def split: option.splits sum.splits if_splits)
  then have "map_of fm' field = map_of fm field"
    using False by (auto simp: update_conv')
  then show ?thesis using i by (simp add: inert_def)
qed

lemma attach_loop_delete:
  "inert fm field \<Longrightarrow> attach_loop (AList.delete field ns) fm = attach_loop ns fm"
proof (induction ns arbitrary: fm)
  case Nil
  show ?case by simp
next
  case (Cons a ns)
  obtain other other_meta where a: "a = (other, other_meta)" by (cases a)
  obtain fm1 where
    s: "suppress {ChildNotSupported, KeyError} fm (attach_dr_meta other other_meta fm) = Inr fm1"
    using attach_step_total by blast
  show ?case
  proof (cases "other = field")
    case True
    then have "fm1 = fm" using s attach_step_inert_same [OF Cons.prems, of other_meta] by simp
    then show ?thesis using True s a Cons.IH [OF Cons.prems] by simp
  next
    case False
    have "inert fm1 field" using attach_step_keeps_inert [OF Cons.prems s] .
    then show ?thesis using False s a Cons.IH [of fm1] by simp
  qed
qed

text \<open>
  Claim C8. For an entry of the \<^verbatim>\<open>nested\<close> mapping whose name is missing from the
  candidate field mapping, or whose field object is not selection-capable,
  \<^verbatim>\<open>derive_desired_fields\<close> raises nothing and returns what it returns when the entry
  is absent: the same desired names and the same field objects.
\<close>

theorem opaque_child_tolerance:
  assumes "(field, field_meta) \<in> set (dr_nested S)"
    and "map_of fm field = None \<or>
         (\<exists>child. map_of fm field = Some child \<and>
            extract_serializer_from_child child = Inl ChildNotSupported)"
  shows "\<exists>desired fm'. derive_desired_fields S fm = Inr (desired, fm') \<and>
     derive_desired_fields (DrMeta (dr_fields S) (dr_omit S) (AList.delete field (dr_nested S))) fm =
       Inr (desired, fm')"
proof -
  have i: "inert fm field" using assms(2) by (auto simp: inert_def)
  obtain fm' where l: "attach_loop (dr_nested S) fm = Inr fm'"
    using attach_loop_total by blast
  show ?thesis
    using l attach_loop_delete [OF i, of "dr_nested S"]
    by (simp add: derive_desired_fields_def Let_def)
qed

theorem opaque_child_tolerance_witness:
  "(''publisher'', dynamic_read_meta) \<in>
     set (dr_nested (DrMeta (FieldSet {''title''}) {}
            [(''publisher'', dynamic_read_meta), (''zzz'', dynamic_read_meta)])) \<and>
   map_of [(''title'', OtherField), (''publisher'', ListSerializer OtherField)] ''publisher'' =
     Some (ListSerializer OtherField) \<and>
   extract_serializer_from_child (ListSerializer OtherField) = Inl ChildNotSupported \<and>
   (\<exists>desired fm'.
      derive_desired_fields
        (DrMeta (FieldSet {''title''}) {}
           [(''publisher'', dynamic_read_meta), (''zzz'', dynamic_read_meta)])
        [(''title'', OtherField), (''publisher'', ListSerializer OtherField)] = Inr (desired, fm') \<and>
      derive_desired_fields
        (DrMeta (FieldSet {''title''}) {} [(''zzz'', dynamic_read_meta)])
        [(''title'', OtherField), (''publisher'', ListSerializer OtherField)] = Inr (desired, fm'))"
proof -
  have h1: "(''publisher'', dynamic_read_meta) \<in>
     set (dr_nested (DrMeta (FieldSet {''title''}) {}
            [(''publisher'', dynamic_read_meta), (''zzz'', dynamic_read_meta)]))"
    by simp
  have h2: "map_of [(''title'', OtherField), (''publisher'', ListSerializer OtherField)]
      ''publisher'' = Some (ListSerializer OtherField)"
    by simp
  have h3: "extract_serializer_from_child (ListSerializer OtherField) = Inl ChildNotSupported"
    by (simp add: extract_serializer_from_child_def)
  have d: "AList.delete ''publisher''
      [(''publisher'', dynamic_read_meta), (''zzz'', dynamic_read_meta)] =
      [(''zzz'', dynamic_read_meta)]"
    by simp
  show ?thesis
    using opaque_child_tolerance [of "''publisher''" dynamic_read_meta
        "DrMeta (FieldSet {''title''}) {}
           [(''publisher'', dynamic_read_meta), (''zzz'', dynamic_read_meta)]"
        "[(''title'', OtherField), (''publisher'', ListSerializer OtherField)]"]
      h1 h2 h3
    unfolding dr_meta.sel d by blast
qed

section \<open>Properties of the relation graph walker\<close>

lemma evaluate_select_prefetch_unfold:
  "evaluate_select_prefetch self accessor_prefix =
     (case get_relational_fields self of
        Inl e \<Rightarrow> Inl e
      | Inr relational_fields \<Rightarrow>
          (case fields self of
             Inl e \<Rightarrow> Inl e
           | Inr flds \<Rightarrow>
               for_each (walk_field flds accessor_prefix) relational_fields ([], [])))"
  by (subst evaluate_select_prefetch.simps) (simp add: walk_field_def [abs_def] cong: sum.case_cong)

lemmas walk_eval = evaluate_select_prefetch_unfold get_relational_fields_def walk_field_def fields_def
  extract_serializer_from_child_def is_child_multiple_def suppress_def merge_sub_def
  LOOKUP_SEP_def

lemmas class_defs = book_class_def review_class_def author_class_def reviewer_class_def

lemma for_each_snoc:
  "for_each body (xs @ [x]) st =
     (case for_each body xs st of Inl e \<Rightarrow> Inl e | Inr st' \<Rightarrow> body x st')"
  by (induction xs arbitrary: st) (auto split: sum.splits)

lemma for_each_skip:
  "(\<And>st. body x st = Inr st) \<Longrightarrow>
     for_each body (filter (\<lambda>n. n \<noteq> x) xs) st = for_each body xs st"
  by (induction xs arbitrary: st) (auto split: sum.splits)

lemma for_each_invariant:
  "for_each body xs st = Inr st' \<Longrightarrow> I st \<Longrightarrow>
   (\<And>x s s'. x \<in> set xs \<Longrightarrow> I s \<Longrightarrow> body x s = Inr s' \<Longrightarrow> I s') \<Longrightarrow> I st'"
proof (induction xs arbitrary: st)
  case Nil
  then show ?case by simp
next
  case (Cons x xs)
  from Cons.prems(1) obtain s1 where b: "body x st = Inr s1" and r: "for_each body xs s1 = Inr st'"
    by (auto split: sum.splits)
  have s1: "I s1" using Cons.prems(3) [of x st s1] Cons.prems(2) b by simp
  show ?case by (rule Cons.IH [OF r s1]) (use Cons.prems(3) in auto)
qed


lemma fields_total: "\<exists>flds. fields self = Inr flds"
proof (cases "dr_meta self")
  case None
  then show ?thesis by (simp add: fields_def)
next
  case (Some m)
  obtain X fm' where "derive_desired_fields m (get_fields self) = Inr (X, fm')"
    using derive_desired_fields_result [of m "get_fields self"] by blast
  then show ?thesis using Some by (simp add: fields_def)
qed

lemma walk_field_cases:
  "walk_field flds p x final = Inr final' \<Longrightarrow>
     final' = final \<or>
     (\<exists>field_obj child sub. map_of flds x = Some field_obj \<and>
        extract_serializer_from_child field_obj = Inr child \<and>
        evaluate_select_prefetch child (p @ x @ LOOKUP_SEP) = Inr sub \<and>
        final' = merge_sub (is_child_multiple field_obj) (p @ x) sub final)"
  by (auto simp: walk_field_def suppress_def Let_def split: option.splits sum.splits if_splits)

lemma merge_sub_sets:
  "merge_sub is_many own (ss, sp) (a, b) = (a', b') \<Longrightarrow>
     set a' \<union> set b' \<subseteq> set a \<union> set b \<union> set ss \<union> set sp \<union> {own}"
  by (auto simp: merge_sub_def split: if_splits)

lemma walk_prefix_aux:
  "\<forall>a b. evaluate_select_prefetch self p = Inr (a, b) \<longrightarrow> (\<forall>e \<in> set a \<union> set b. prefix p e)"
proof (induction self p rule: evaluate_select_prefetch.induct)
  case (1 self p)
  show ?case
  proof (intro allI impI)
    fix a b
    assume ev: "evaluate_select_prefetch self p = Inr (a, b)"
    obtain flds where f: "fields self = Inr flds" using fields_total by blast
    obtain rel where gr: "get_relational_fields self = Inr rel"
      using ev by (auto simp: evaluate_select_prefetch_unfold split: sum.splits)
    from ev f gr have fe: "for_each (walk_field flds p) rel ([], []) = Inr (a, b)"
      by (simp add: evaluate_select_prefetch_unfold)
    define I where "I = (\<lambda>st :: string list \<times> string list. \<forall>e \<in> set (fst st) \<union> set (snd st). prefix p e)"
    have step: "I s'" if x: "x \<in> set rel" and i: "I s"
      and w: "walk_field flds p x s = Inr s'" for x s s'
    proof -
      from walk_field_cases [OF w] show ?thesis
      proof
        assume "s' = s" then show ?thesis using i by simp
      next
        assume "\<exists>field_obj child sub. map_of flds x = Some field_obj \<and>
          extract_serializer_from_child field_obj = Inr child \<and>
          evaluate_select_prefetch child (p @ x @ LOOKUP_SEP) = Inr sub \<and>
          s' = merge_sub (is_child_multiple field_obj) (p @ x) sub s"
        then obtain field_obj child sub where m: "map_of flds x = Some field_obj"
          and c: "extract_serializer_from_child field_obj = Inr child"
          and e: "evaluate_select_prefetch child (p @ x @ LOOKUP_SEP) = Inr sub"
          and s': "s' = merge_sub (is_child_multiple field_obj) (p @ x) sub s"
          by blast
        obtain ss sp where sub: "sub = (ss, sp)" by (cases sub)
        obtain sa sb where s: "s = (sa, sb)" by (cases s)
        obtain a' b' where ab: "s' = (a', b')" by (cases s')
        have ih: "\<forall>e \<in> set ss \<union> set sp. prefix (p @ x @ LOOKUP_SEP) e"
          using "1.IH" [OF gr f x m refl c] e sub by blast
        then have ih': "\<forall>e \<in> set ss \<union> set sp. prefix p e"
          by (metis append_prefixD)
        have "set a' \<union> set b' \<subseteq> set sa \<union> set sb \<union> set ss \<union> set sp \<union> {p @ x}"
          using merge_sub_sets [of "is_child_multiple field_obj" "p @ x" ss sp sa sb a' b']
            s' sub s ab by simp
        then show ?thesis using i ih' s ab by (auto simp: I_def)
      qed
    qed
    have "I (a, b)"
    proof (rule for_each_invariant [OF fe, of I])
      show "I ([], [])" by (simp add: I_def)
    next
      fix x s s'
      assume "x \<in> set rel" "I s" "walk_field flds p x s = Inr s'"
      then show "I s'" by (rule step)
    qed
    then show "\<forall>e \<in> set a \<union> set b. prefix p e" by (simp add: I_def)
  qed
qed

lemma walk_prefix:
  "evaluate_select_prefetch self p = Inr (a, b) \<Longrightarrow> e \<in> set a \<union> set b \<Longrightarrow> prefix p e"
  using walk_prefix_aux by blast






lemma models_declared_with_dr_meta:
  "models_declared (Serializer (meta_model_relations s) (get_fields s) m) = models_declared s"
  by (cases s) simp



lemma list_all_update:
  "list_all P ns \<Longrightarrow> P (k, v) \<Longrightarrow> list_all P (AList.update k v ns)"
  by (induction ns) auto






lemma fields_relational_irrelevant:
  "fields (Serializer rel fm m) = fields (Serializer rel' fm m)"
  by (simp add: fields_def)

text \<open>
  Claim C2, as amended. An exposed relational field whose field object is not
  selection-capable produces no hint, whether it is single-valued or list-valued: the
  walk returns what it returns when the field is not relational at all.
\<close>

theorem opaque_field_no_hint:
  assumes "fields self = Inr flds"
    and "map_of flds field_name = Some field_obj"
    and "extract_serializer_from_child field_obj = Inl ChildNotSupported"
  shows "evaluate_select_prefetch self accessor_prefix =
     evaluate_select_prefetch
       (Serializer (map_option (filter (\<lambda>n. n \<noteq> field_name)) (meta_model_relations self))
          (get_fields self) (dr_meta self))
       accessor_prefix"
proof -
  have same: "fields (Serializer
      (map_option (filter (\<lambda>n. n \<noteq> field_name)) (meta_model_relations self))
      (get_fields self) (dr_meta self)) = Inr flds"
    using assms(1) fields_relational_irrelevant [of "meta_model_relations self" "get_fields self"
        "dr_meta self"]
    by (cases self) simp
  have skip: "walk_field flds accessor_prefix field_name st = Inr st" for st
    using assms(2,3) by (simp add: walk_field_def suppress_def)
  show ?thesis
  proof (cases "meta_model_relations self")
    case None
    then show ?thesis
      by (simp add: evaluate_select_prefetch_unfold get_relational_fields_def)
  next
    case (Some rel)
    then show ?thesis
      using assms(1) same
        for_each_skip [of "walk_field flds accessor_prefix" field_name, OF skip]
      by (simp add: evaluate_select_prefetch_unfold get_relational_fields_def)
  qed
qed

text \<open>
  Claim C2 as stated asks for \<^verbatim>\<open>publisher\<close> in the direct joins and \<^verbatim>\<open>tags\<close> in the
  batched loads of the example with two such fields; the walk returns two empty lists.
\<close>

theorem opaque_field_counterexample:
  "fields opaque_example =
     Inr [(''publisher'', OtherField), (''tags'', ListSerializer OtherField)] \<and>
   \<not> is_child_multiple OtherField \<and> is_child_multiple (ListSerializer OtherField) \<and>
   evaluate_select_prefetch opaque_example [] = Inr ([], [])"
  by (simp add: walk_eval opaque_example_def)

theorem opaque_field_no_hint_witness:
  "fields opaque_example =
     Inr [(''publisher'', OtherField), (''tags'', ListSerializer OtherField)] \<and>
   map_of [(''publisher'', OtherField), (''tags'', ListSerializer OtherField)] ''tags'' =
     Some (ListSerializer OtherField) \<and>
   extract_serializer_from_child (ListSerializer OtherField) = Inl ChildNotSupported \<and>
   evaluate_select_prefetch opaque_example ''shelf__'' =
     evaluate_select_prefetch
       (Serializer (Some [''publisher''])
          [(''publisher'', OtherField), (''tags'', ListSerializer OtherField)] None) ''shelf__''"
proof -
  have f: "fields opaque_example =
     Inr [(''publisher'', OtherField), (''tags'', ListSerializer OtherField)]"
    by (simp add: fields_def opaque_example_def)
  have m: "map_of [(''publisher'', OtherField), (''tags'', ListSerializer OtherField)] ''tags'' =
     Some (ListSerializer OtherField)"
    by simp
  have e: "extract_serializer_from_child (ListSerializer OtherField) = Inl ChildNotSupported"
    by (simp add: extract_serializer_from_child_def)
  have "evaluate_select_prefetch opaque_example ''shelf__'' =
     evaluate_select_prefetch
       (Serializer (map_option (filter (\<lambda>n. n \<noteq> ''tags'')) (meta_model_relations opaque_example))
          (get_fields opaque_example) (dr_meta opaque_example)) ''shelf__''"
    by (rule opaque_field_no_hint [OF f m e])
  then show ?thesis using f m e by (simp add: opaque_example_def)
qed

text \<open>
  Claim C7, as amended. Let a multi-valued, selection-capable field be walked last. The
  walk appends to the batched loads the direct joins of the recursive call (demoted),
  and then the batched loads of the recursive call when there are any, and the field's
  own accessor path when there are none. The own path is never an entry of the
  recursive call, so the own path is added exactly when the recursive call yields no
  batched load; the direct joins of the recursive call play no part in that. The same
  is appended by the loop body for that field wherever it stands in the loop, whatever
  has been collected before.
\<close>

theorem many_field_own_path:
  assumes "fields (Serializer (Some rel) fm m) = Inr flds"
    and "map_of flds field_name = Some (ListSerializer (DynamicReadSerializer child))"
    and "evaluate_select_prefetch child (accessor_prefix @ field_name @ LOOKUP_SEP) =
           Inr (sub_select_related, sub_prefetch_related)"
    and "evaluate_select_prefetch (Serializer (Some rel) fm m) accessor_prefix =
           Inr (final_select, final_prefetch)"
  shows "evaluate_select_prefetch (Serializer (Some (rel @ [field_name])) fm m) accessor_prefix =
           Inr (final_select,
                final_prefetch @ sub_select_related @
                  (if sub_prefetch_related = [] then [accessor_prefix @ field_name]
                   else sub_prefetch_related)) \<and>
         accessor_prefix @ field_name \<notin> set sub_select_related \<and>
         accessor_prefix @ field_name \<notin> set sub_prefetch_related \<and>
         walk_field flds accessor_prefix field_name (any_select, any_prefetch) =
           Inr (any_select,
                any_prefetch @ sub_select_related @
                  (if sub_prefetch_related = [] then [accessor_prefix @ field_name]
                   else sub_prefetch_related))"
proof -
  have same: "fields (Serializer (Some (rel @ [field_name])) fm m) = Inr flds"
    using assms(1) fields_relational_irrelevant [of "Some (rel @ [field_name])" fm m "Some rel"] by simp
  have before: "for_each (walk_field flds accessor_prefix) rel ([], []) =
      Inr (final_select, final_prefetch)"
    using assms(1,4) by (simp add: evaluate_select_prefetch_unfold get_relational_fields_def)
  have step: "walk_field flds accessor_prefix field_name (acc_select, acc_prefetch) =
      Inr (acc_select,
           acc_prefetch @ sub_select_related @
             (if sub_prefetch_related = [] then [accessor_prefix @ field_name]
              else sub_prefetch_related))" for acc_select acc_prefetch
    using assms(2,3)
    by (simp add: walk_field_def suppress_def extract_serializer_from_child_def
        is_child_multiple_def merge_sub_def)
  have walk: "evaluate_select_prefetch (Serializer (Some (rel @ [field_name])) fm m) accessor_prefix =
      Inr (final_select,
           final_prefetch @ sub_select_related @
             (if sub_prefetch_related = [] then [accessor_prefix @ field_name]
              else sub_prefetch_related))"
    using same before step
    by (simp add: evaluate_select_prefetch_unfold get_relational_fields_def for_each_snoc
        del: for_each.simps)
  have longer: "accessor_prefix @ field_name \<noteq> e"
    if "e \<in> set sub_select_related \<union> set sub_prefetch_related" for e
  proof -
    have "prefix (accessor_prefix @ field_name @ LOOKUP_SEP) e"
      using walk_prefix [OF assms(3) that] .
    then have "length (accessor_prefix @ field_name @ LOOKUP_SEP) \<le> length e"
      by (rule prefix_length_le)
    then show ?thesis by (auto simp: LOOKUP_SEP_def)
  qed
  show ?thesis using walk longer step [of any_select any_prefetch] by blast
qed

lemma fields_unrestricted: "fields (Serializer rel fm None) = Inr fm"
  by (simp add: fields_def)

text \<open>
  Claim C1, as amended. For a node shaped like the Book scenario the unrestricted walk
  returns the direct join \<^verbatim>\<open>author\<close> and the batched loads
  \<^verbatim>\<open>reviews__reviewer\<close> and \<^verbatim>\<open>reviews\<close>: the direct join found beneath the
  multi-valued field is demoted to a batched load, and the path segments are joined by
  \<^verbatim>\<open>LOOKUP_SEP\<close>, the two underscores.
\<close>

theorem book_shape:
  assumes "map_of book_fields author_name = Some (DynamicReadSerializer author)"
    and "map_of book_fields reviews_name =
           Some (ListSerializer (DynamicReadSerializer (Serializer (Some [reviewer_name]) review_fields None)))"
    and "map_of review_fields reviewer_name = Some (DynamicReadSerializer reviewer)"
    and "evaluate_select_prefetch author (author_name @ LOOKUP_SEP) = Inr ([], [])"
    and "evaluate_select_prefetch reviewer
           (reviews_name @ LOOKUP_SEP @ reviewer_name @ LOOKUP_SEP) = Inr ([], [])"
  shows "evaluate_select_prefetch (Serializer (Some [author_name, reviews_name]) book_fields None) [] =
           Inr ([author_name], [reviews_name @ LOOKUP_SEP @ reviewer_name, reviews_name])"
proof -
  have review: "evaluate_select_prefetch (Serializer (Some [reviewer_name]) review_fields None)
      (reviews_name @ LOOKUP_SEP) = Inr ([reviews_name @ LOOKUP_SEP @ reviewer_name], [])"
    using assms(3,5)
    by (simp add: evaluate_select_prefetch_unfold [of "Serializer (Some [reviewer_name]) review_fields None"]
        get_relational_fields_def fields_unrestricted walk_field_def suppress_def extract_serializer_from_child_def
        is_child_multiple_def merge_sub_def)
  show ?thesis
    using assms(1,2,4) review
    by (simp add: evaluate_select_prefetch_unfold [of "Serializer (Some [author_name, reviews_name]) book_fields None"]
        get_relational_fields_def fields_unrestricted walk_field_def suppress_def extract_serializer_from_child_def
        is_child_multiple_def merge_sub_def)
qed

lemma review_walk:
  "evaluate_select_prefetch (Serializer (fst review_class) (snd review_class) None) ''reviews__''
     = Inr ([''reviews__reviewer''], [])"
  by (simp add: walk_eval class_defs)

theorem book_shape_witness:
  "map_of [(''title'', OtherField),
       (''author'', DynamicReadSerializer (Serializer (Some []) [(''name'', OtherField)] None)),
       (''reviews'', ListSerializer (DynamicReadSerializer
          (Serializer (Some [''reviewer'']) (snd review_class) None)))] ''author'' =
     Some (DynamicReadSerializer (Serializer (Some []) [(''name'', OtherField)] None)) \<and>
   map_of [(''title'', OtherField),
       (''author'', DynamicReadSerializer (Serializer (Some []) [(''name'', OtherField)] None)),
       (''reviews'', ListSerializer (DynamicReadSerializer
          (Serializer (Some [''reviewer'']) (snd review_class) None)))] ''reviews'' =
     Some (ListSerializer (DynamicReadSerializer
       (Serializer (Some [''reviewer'']) (snd review_class) None))) \<and>
   map_of (snd review_class) ''reviewer'' =
     Some (DynamicReadSerializer (Serializer (fst reviewer_class) (snd reviewer_class) None)) \<and>
   evaluate_select_prefetch (Serializer (Some []) [(''name'', OtherField)] None)
     (''author'' @ LOOKUP_SEP) = Inr ([], []) \<and>
   evaluate_select_prefetch (Serializer (fst reviewer_class) (snd reviewer_class) None)
     (''reviews'' @ LOOKUP_SEP @ ''reviewer'' @ LOOKUP_SEP) = Inr ([], []) \<and>
   evaluate_select_prefetch
     (Serializer (Some [''author'', ''reviews''])
        [(''title'', OtherField),
         (''author'', DynamicReadSerializer (Serializer (Some []) [(''name'', OtherField)] None)),
         (''reviews'', ListSerializer (DynamicReadSerializer
            (Serializer (Some [''reviewer'']) (snd review_class) None)))] None) [] =
     Inr ([''author''], [''reviews'' @ LOOKUP_SEP @ ''reviewer'', ''reviews''])"
proof -
  define book_fields where "book_fields =
    [(''title'', OtherField),
     (''author'', DynamicReadSerializer (Serializer (Some []) [(''name'', OtherField)] None)),
     (''reviews'', ListSerializer (DynamicReadSerializer
        (Serializer (Some [''reviewer'']) (snd review_class) None)))]"
  have 1: "map_of book_fields ''author'' =
     Some (DynamicReadSerializer (Serializer (Some []) [(''name'', OtherField)] None))"
    by (simp add: book_fields_def)
  have 2: "map_of book_fields ''reviews'' =
     Some (ListSerializer (DynamicReadSerializer
       (Serializer (Some [''reviewer'']) (snd review_class) None)))"
    by (simp add: book_fields_def)
  have 3: "map_of (snd review_class) ''reviewer'' =
     Some (DynamicReadSerializer (Serializer (fst reviewer_class) (snd reviewer_class) None))"
    by (simp add: class_defs)
  have 4: "evaluate_select_prefetch (Serializer (Some []) [(''name'', OtherField)] None)
     (''author'' @ LOOKUP_SEP) = Inr ([], [])"
    by (simp add: evaluate_select_prefetch_unfold get_relational_fields_def fields_unrestricted)
  have 5: "evaluate_select_prefetch (Serializer (fst reviewer_class) (snd reviewer_class) None)
     (''reviews'' @ LOOKUP_SEP @ ''reviewer'' @ LOOKUP_SEP) = Inr ([], [])"
    by (simp add: walk_eval class_defs)
  show ?thesis
    unfolding book_fields_def [symmetric]
    using 1 2 3 4 5 book_shape [OF 1 2 3 4 5] by blast
qed

text \<open>
  Claim C1 as stated names the batched load \<^verbatim>\<open>reviews.reviewer\<close>; the walk of the
  Book class joins the segments with two underscores.
\<close>

theorem book_scenario_counterexample:
  "all_select_prefetch book_class = Inr ([''author''], [''reviews__reviewer'', ''reviews'']) \<and>
   set [''reviews__reviewer'', ''reviews''] \<noteq> {''reviews'', ''reviews.reviewer''}"
proof
  show "all_select_prefetch book_class = Inr ([''author''], [''reviews__reviewer'', ''reviews''])"
    by (simp add: all_select_prefetch_def init_def truthy_def as_tuple_def walk_eval class_defs)
  show "set [''reviews__reviewer'', ''reviews''] \<noteq> {''reviews'', ''reviews.reviewer''}"
  proof
    assume "set [''reviews__reviewer'', ''reviews''] = {''reviews'', ''reviews.reviewer''}"
    moreover have "''reviews__reviewer'' \<in> set [''reviews__reviewer'', ''reviews'']"
      by (rule list.set_intros(1))
    ultimately have "''reviews__reviewer'' \<in> {''reviews'', ''reviews.reviewer''}"
      by (rule subst)
    then show False by simp
  qed
qed

theorem many_field_own_path_witness:
  "fields (Serializer (Some [''author'']) (snd book_class) None) = Inr (snd book_class) \<and>
   map_of (snd book_class) ''reviews'' =
     Some (ListSerializer (DynamicReadSerializer
       (Serializer (fst review_class) (snd review_class) None))) \<and>
   evaluate_select_prefetch (Serializer (fst review_class) (snd review_class) None)
     ([] @ ''reviews'' @ LOOKUP_SEP) = Inr ([''reviews__reviewer''], []) \<and>
   evaluate_select_prefetch (Serializer (Some [''author'']) (snd book_class) None) [] =
     Inr ([''author''], []) \<and>
   evaluate_select_prefetch (Serializer (Some ([''author''] @ [''reviews''])) (snd book_class) None) [] =
     Inr ([''author''], [''reviews__reviewer'', ''reviews'']) \<and>
   ''reviews'' \<notin> set [''reviews__reviewer'']"
proof -
  have 1: "fields (Serializer (Some [''author'']) (snd book_class) None) = Inr (snd book_class)"
    by (rule fields_unrestricted)
  have 2: "map_of (snd book_class) ''reviews'' =
     Some (ListSerializer (DynamicReadSerializer
       (Serializer (fst review_class) (snd review_class) None)))"
    by (simp add: book_class_def)
  have 3: "evaluate_select_prefetch (Serializer (fst review_class) (snd review_class) None)
     ([] @ ''reviews'' @ LOOKUP_SEP) = Inr ([''reviews__reviewer''], [])"
    using review_walk by (simp add: LOOKUP_SEP_def)
  have 4: "evaluate_select_prefetch (Serializer (Some [''author'']) (snd book_class) None) [] =
     Inr ([''author''], [])"
    by (simp add: walk_eval class_defs)
  show ?thesis using 1 2 3 4 many_field_own_path [OF 1 2 3 4] by simp
qed

text \<open>
  Claim C7 fails as stated in both directions. In the first serializer the recursive
  call into the multi-valued field \<^verbatim>\<open>reviews\<close> yields no direct join, and the own path
  \<^verbatim>\<open>reviews\<close> is not added, because the call yields a batched load. In the second the
  recursive call yields a direct join, and the own path is added all the same.
\<close>

theorem many_field_counterexample:
  "evaluate_select_prefetch comments_example ''reviews__'' = Inr ([], [''reviews__comments'']) \<and>
   evaluate_select_prefetch
     (Serializer (Some [''reviews''])
        [(''reviews'', ListSerializer (DynamicReadSerializer comments_example))] None) [] =
     Inr ([], [''reviews__comments'']) \<and>
   ''reviews'' \<notin> set [''reviews__comments''] \<and>
   evaluate_select_prefetch (Serializer (fst review_class) (snd review_class) None) ''reviews__'' =
     Inr ([''reviews__reviewer''], []) \<and>
   evaluate_select_prefetch
     (Serializer (Some [''reviews''])
        [(''reviews'', ListSerializer (DynamicReadSerializer
           (Serializer (fst review_class) (snd review_class) None)))] None) [] =
     Inr ([], [''reviews__reviewer'', ''reviews''])"
  by (simp add: walk_eval class_defs comments_example_def)

section \<open>Properties of the selector parser\<close>







lemma modify_at_total:
  "(\<And>n. \<exists>n'. f n = Inr n') \<Longrightarrow> \<exists>m'. modify_at path f m = Inr m'"
proof (induction path arbitrary: m)
  case Nil
  then show ?case by simp
next
  case (Cons key path)
  obtain c' where "modify_at path f (nested_getitem (dr_nested m) key) = Inr c'"
    using Cons.IH [OF Cons.prems] by blast
  then show ?case by simp
qed

lemma omit_loop_total: "\<exists>root' pi'. omit_loop segs pi root = Inr (root', pi')"
proof (induction segs arbitrary: pi root)
  case Nil
  show ?case by simp
next
  case (Cons field rest)
  obtain r1 where m: "modify_at (field_meta_ref pi) fields_set_all root = Inr r1"
    using modify_at_total [of fields_set_all] by (auto simp: fields_set_all_def)
  show ?case using Cons.IH [of "Some (field, field_meta_ref pi)" r1] m by (simp add: Let_def)
qed

lemma omit_loop_parent_info:
  "omit_loop segs pi root = Inr (root', pi') \<Longrightarrow> segs \<noteq> [] \<Longrightarrow>
     pi' = Some (last segs, field_meta_ref pi @ butlast segs)"
proof (induction segs arbitrary: pi root)
  case Nil
  then show ?case by simp
next
  case (Cons field rest)
  from Cons.prems(1) obtain r1 where
    r: "omit_loop rest (Some (field, field_meta_ref pi)) r1 = Inr (root', pi')"
    by (auto simp: Let_def split: sum.splits)
  show ?case
  proof (cases "rest = []")
    case True
    then show ?thesis using r by simp
  next
    case False
    then show ?thesis using Cons.IH [OF r False] by (simp add: field_meta_ref_def)
  qed
qed






lemma map_of_update_same: "map_of (AList.update k v ns) k = Some v"
  by (simp add: update_conv')

lemma node_at_default: "node_at dynamic_read_meta path = Some n \<Longrightarrow> path = []"
  by (cases path) (auto simp: dynamic_read_meta_def)

lemma node_or_default_default: "node_or_default dynamic_read_meta path = dynamic_read_meta"
  by (cases path) (auto simp: node_or_default_def dynamic_read_meta_def)

lemma node_or_default_Cons:
  "node_or_default m (key # path) = node_or_default (nested_getitem (dr_nested m) key) path"
  by (cases "map_of (dr_nested m) key")
    (simp_all add: node_or_default_def nested_getitem_def
      node_or_default_default [unfolded node_or_default_def])

lemma node_at_modify_at:
  "modify_at path f m = Inr m' \<Longrightarrow>
     \<exists>n'. node_at m' path = Some n' \<and> f (node_or_default m path) = Inr n'"
proof (induction path arbitrary: m m')
  case Nil
  then show ?case by (simp add: node_or_default_def)
next
  case (Cons key path)
  from Cons.prems obtain c' where
    c: "modify_at path f (nested_getitem (dr_nested m) key) = Inr c'"
    and m': "m' = DrMeta (dr_fields m) (dr_omit m) (AList.update key c' (dr_nested m))"
    by (auto split: sum.splits)
  obtain n' where "node_at c' path = Some n'"
    and "f (node_or_default (nested_getitem (dr_nested m) key) path) = Inr n'"
    using Cons.IH [OF c] by blast
  then show ?case by (simp add: m' map_of_update_same node_or_default_Cons)
qed

lemma ancestor_kept:
  "modify_at (q @ key # r) f m = Inr m' \<Longrightarrow> node_at m q = Some n \<Longrightarrow>
     \<exists>n'. node_at m' q = Some n' \<and> dr_fields n' = dr_fields n \<and> dr_omit n' = dr_omit n"
proof (induction q arbitrary: m m')
  case Nil
  then show ?case by (auto split: sum.splits)
next
  case (Cons a q)
  from Cons.prems(2) obtain c where mc: "map_of (dr_nested m) a = Some c" and nc: "node_at c q = Some n"
    by (auto split: option.splits)
  have g: "nested_getitem (dr_nested m) a = c" using mc by (simp add: nested_getitem_def)
  from Cons.prems(1) g obtain c' where
    c: "modify_at (q @ key # r) f c = Inr c'"
    and m': "m' = DrMeta (dr_fields m) (dr_omit m) (AList.update a c' (dr_nested m))"
    by (auto split: sum.splits)
  obtain n' where "node_at c' q = Some n'" "dr_fields n' = dr_fields n" "dr_omit n' = dr_omit n"
    using Cons.IH [OF c nc] by blast
  then show ?case by (simp add: m' map_of_update_same)
qed

lemma omit_loop_ancestor_kept:
  "omit_loop segs pi root = Inr (root', pi') \<Longrightarrow> field_meta_ref pi = q @ key # r \<Longrightarrow>
   node_at root q = Some n \<Longrightarrow>
     \<exists>n'. node_at root' q = Some n' \<and> dr_fields n' = dr_fields n \<and> dr_omit n' = dr_omit n"
proof (induction segs arbitrary: pi root key r n)
  case Nil
  then show ?case by simp
next
  case (Cons field rest)
  from Cons.prems(1) obtain r1 where
    m: "modify_at (field_meta_ref pi) fields_set_all root = Inr r1"
    and l: "omit_loop rest (Some (field, field_meta_ref pi)) r1 = Inr (root', pi')"
    by (auto simp: Let_def split: sum.splits)
  obtain n1 where n1: "node_at r1 q = Some n1" "dr_fields n1 = dr_fields n" "dr_omit n1 = dr_omit n"
    using ancestor_kept [OF m [unfolded Cons.prems(2)] Cons.prems(3)] by blast
  have ref: "field_meta_ref (Some (field, field_meta_ref pi)) = q @ key # (r @ [field])"
    using Cons.prems(2) by (simp add: field_meta_ref_def)
  obtain n' where "node_at root' q = Some n'" "dr_fields n' = dr_fields n1" "dr_omit n' = dr_omit n1"
    using Cons.IH [OF l ref n1(1)] by blast
  then show ?case using n1 by simp
qed

lemma omit_loop_marks:
  "omit_loop segs pi root = Inr (root', pi') \<Longrightarrow> k < length segs \<Longrightarrow>
     \<exists>n. node_at root' (field_meta_ref pi @ take k segs) = Some n \<and> dr_fields n = ALL_FIELDS"
proof (induction segs arbitrary: pi root k)
  case Nil
  then show ?case by simp
next
  case (Cons field rest)
  from Cons.prems(1) obtain r1 where
    m: "modify_at (field_meta_ref pi) fields_set_all root = Inr r1"
    and l: "omit_loop rest (Some (field, field_meta_ref pi)) r1 = Inr (root', pi')"
    by (auto simp: Let_def split: sum.splits)
  have ref: "field_meta_ref (Some (field, field_meta_ref pi)) = field_meta_ref pi @ [field]"
    by (simp add: field_meta_ref_def)
  show ?case
  proof (cases k)
    case 0
    obtain n1 where n1: "node_at r1 (field_meta_ref pi) = Some n1" "dr_fields n1 = ALL_FIELDS"
      using node_at_modify_at [OF m] by (auto simp: fields_set_all_def)
    have ref': "field_meta_ref (Some (field, field_meta_ref pi)) = field_meta_ref pi @ field # []"
      using ref by simp
    obtain n' where "node_at root' (field_meta_ref pi) = Some n'" "dr_fields n' = dr_fields n1"
      using omit_loop_ancestor_kept [OF l ref' n1(1)] by blast
    then show ?thesis using 0 n1 by simp
  next
    case (Suc j)
    then have j: "j < length rest" using Cons.prems(2) by simp
    show ?thesis using Cons.IH [OF l j] Suc by (simp add: ref)
  qed
qed





lemma split_a_b: "split ''a__b'' LOOKUP_SEP = [''a'', ''b'']"
  by (simp add: split_def LOOKUP_SEP_def split_str.simps)

lemma split_a: "split ''a'' LOOKUP_SEP = [''a'']"
  by (simp add: split_def LOOKUP_SEP_def split_str.simps)



section \<open>The field resolver on the trees the parser builds\<close>

lemma omit_mode_default: "omit_mode dynamic_read_meta"
  by (simp add: dynamic_read_meta_def)

lemma omit_mode_map_of:
  "list_all (\<lambda>(k, c). omit_mode c) ns \<Longrightarrow> map_of ns key = Some c \<Longrightarrow> omit_mode c"
  by (induction ns) (auto split: if_splits)

lemma omit_mode_getitem: "omit_mode m \<Longrightarrow> omit_mode (nested_getitem (dr_nested m) key)"
  by (cases m) (auto simp: nested_getitem_def omit_mode_default split: option.splits
      dest: omit_mode_map_of)

lemma omit_mode_node_at: "omit_mode m \<Longrightarrow> node_at m path = Some n \<Longrightarrow> omit_mode n"
proof (induction path arbitrary: m)
  case Nil
  then show ?case by simp
next
  case (Cons key path)
  from Cons.prems(2) obtain c where c: "map_of (dr_nested m) key = Some c" "node_at c path = Some n"
    by (auto split: option.splits)
  have "omit_mode c" using Cons.prems(1) c(1) by (cases m) (auto dest: omit_mode_map_of)
  then show ?case using Cons.IH c(2) by blast
qed

lemma omit_mode_here: "omit_mode n \<Longrightarrow> dr_omit n \<noteq> {} \<Longrightarrow> dr_fields n = ALL_FIELDS"
  by (cases n) auto

lemma modify_at_omit_mode:
  "omit_mode m \<Longrightarrow> modify_at path f m = Inr m' \<Longrightarrow>
   (\<And>n'. f (node_or_default m path) = Inr n' \<Longrightarrow> omit_mode n') \<Longrightarrow> omit_mode m'"
proof (induction path arbitrary: m m')
  case Nil
  then show ?case by (simp add: node_or_default_def)
next
  case (Cons key path)
  from Cons.prems(2) obtain c' where
    c: "modify_at path f (nested_getitem (dr_nested m) key) = Inr c'"
    and m': "m' = DrMeta (dr_fields m) (dr_omit m) (AList.update key c' (dr_nested m))"
    by (auto split: sum.splits)
  have "omit_mode c'"
    using Cons.IH [OF omit_mode_getitem [OF Cons.prems(1)] c] Cons.prems(3)
    by (simp add: node_or_default_Cons)
  then show ?case using Cons.prems(1) m' by (cases m) (auto intro: list_all_update)
qed

lemma fields_add_omit_mode: "omit_mode n \<Longrightarrow> fields_add field n = Inr n' \<Longrightarrow> omit_mode n'"
  by (cases n) (auto simp: fields_add_def split: field_set.splits)

lemma fields_set_all_omit_mode: "omit_mode n \<Longrightarrow> fields_set_all n = Inr n' \<Longrightarrow> omit_mode n'"
  by (cases n) (auto simp: fields_set_all_def)

lemma omit_add_omit_mode:
  "omit_mode n \<Longrightarrow> dr_fields n = ALL_FIELDS \<Longrightarrow> omit_add field n = Inr n' \<Longrightarrow> omit_mode n'"
  by (cases n) (auto simp: omit_add_def)

lemma omit_mode_node_or_default: "omit_mode m \<Longrightarrow> omit_mode (node_or_default m path)"
  by (auto simp: node_or_default_def omit_mode_default split: option.splits
      dest: omit_mode_node_at)

lemma filter_loop_omit_mode:
  "omit_mode root \<Longrightarrow> filter_loop segs pi root = Inr (root', pi') \<Longrightarrow> omit_mode root'"
proof (induction segs arbitrary: pi root)
  case Nil
  then show ?case by simp
next
  case (Cons field rest)
  from Cons.prems(2) obtain r1 where
    m: "modify_at (field_meta_ref pi) (fields_add field) root = Inr r1"
    and l: "filter_loop rest (Some (field, field_meta_ref pi)) r1 = Inr (root', pi')"
    by (auto simp: Let_def split: sum.splits)
  have "omit_mode r1"
    using modify_at_omit_mode [OF Cons.prems(1) m]
      fields_add_omit_mode [OF omit_mode_node_or_default [OF Cons.prems(1)]]
    by blast
  then show ?case using Cons.IH l by blast
qed

lemma omit_loop_omit_mode:
  "omit_mode root \<Longrightarrow> omit_loop segs pi root = Inr (root', pi') \<Longrightarrow> omit_mode root'"
proof (induction segs arbitrary: pi root)
  case Nil
  then show ?case by simp
next
  case (Cons field rest)
  from Cons.prems(2) obtain r1 where
    m: "modify_at (field_meta_ref pi) fields_set_all root = Inr r1"
    and l: "omit_loop rest (Some (field, field_meta_ref pi)) r1 = Inr (root', pi')"
    by (auto simp: Let_def split: sum.splits)
  have "omit_mode r1"
    using modify_at_omit_mode [OF Cons.prems(1) m]
      fields_set_all_omit_mode [OF omit_mode_node_or_default [OF Cons.prems(1)]]
    by blast
  then show ?case using Cons.IH l by blast
qed

lemma process_filter_path_omit_mode:
  "omit_mode root \<Longrightarrow> process_filter_path segs root = Inr root' \<Longrightarrow> omit_mode root'"
  by (auto simp: process_filter_path_def split: sum.splits dest: filter_loop_omit_mode)

lemma process_omit_path_omit_mode:
  assumes om: "omit_mode root" and p: "process_omit_path segs root = Inr root'"
  shows "omit_mode root'"
proof -
  obtain r1 pi' where l: "omit_loop segs None root = Inr (r1, pi')"
    using omit_loop_total by blast
  have r1: "omit_mode r1" using omit_loop_omit_mode [OF om l] .
  show ?thesis
  proof (cases "segs = []")
    case True
    then show ?thesis using l p r1
      by (simp add: process_omit_path_def omit_last_def suppress_def)
  next
    case False
    have pi': "pi' = Some (last segs, butlast segs)"
      using omit_loop_parent_info [OF l False] by (simp add: field_meta_ref_def)
    obtain r2 where r2: "modify_at (butlast segs) (omit_add (last segs)) r1 = Inr r2"
      using modify_at_total [of "omit_add (last segs)"] by (auto simp: omit_add_def)
    have m2: "modify_at (butlast segs) (omit_add (last segs)) r1 = Inr root'"
      using p l pi' False r2
      by (simp add: process_omit_path_def omit_last_def suppress_def)
    have bl: "butlast segs = take (length segs - 1) segs" by (rule butlast_conv_take)
    obtain t0 where t0: "node_at r1 (butlast segs) = Some t0" "dr_fields t0 = ALL_FIELDS"
      using omit_loop_marks [OF l, of "length segs - 1"] False bl
      by (auto simp: field_meta_ref_def)
    have nd: "node_or_default r1 (butlast segs) = t0"
      using t0 by (simp add: node_or_default_def)
    have t0m: "omit_mode t0" using omit_mode_node_at [OF r1 t0(1)] .
    show ?thesis
      using modify_at_omit_mode [OF r1 m2] omit_add_omit_mode [OF t0m t0(2)] nd by simp
  qed
qed

lemma for_each_omit_mode:
  "(\<And>x s s'. omit_mode s \<Longrightarrow> body x s = Inr s' \<Longrightarrow> omit_mode s') \<Longrightarrow>
   omit_mode root \<Longrightarrow> for_each body xs root = Inr root' \<Longrightarrow> omit_mode root'"
  by (rule for_each_invariant [of body xs root root' omit_mode]) auto

lemma process_field_options_omit_mode:
  "process_field_options filter_fields omit_fields = Inr root \<Longrightarrow> omit_mode root"
proof -
  assume p: "process_field_options filter_fields omit_fields = Inr root"
  then obtain r1 where
    a: "for_each process_filter_path (map (\<lambda>each. split each LOOKUP_SEP) filter_fields)
          dynamic_read_meta = Inr r1"
    and b: "for_each process_omit_path (map (\<lambda>each. split each LOOKUP_SEP) omit_fields) r1 =
          Inr root"
    by (auto simp: process_field_options_def Let_def split: sum.splits)
  have "omit_mode r1"
    using for_each_omit_mode [OF _ omit_mode_default a] process_filter_path_omit_mode by blast
  then show ?thesis
    using for_each_omit_mode [OF _ _ b] process_omit_path_omit_mode by blast
qed

text \<open>
  Claim C3. The attached \<^verbatim>\<open>dr_meta\<close> of a serializer is a tree built by
  \<^verbatim>\<open>process_field_options\<close> (in \<^verbatim>\<open>__init__\<close>), or a node of such a tree (attached by
  the parent's \<^verbatim>\<open>derive_desired_fields\<close>). For every such node and every candidate field
  mapping \<^verbatim>\<open>derive_desired_fields\<close> returns. With \<^verbatim>\<open>fields\<close> equal to \<^verbatim>\<open>ALL_FIELDS\<close>
  and a non-empty \<^verbatim>\<open>omit\<close> the desired set is the candidate names minus \<^verbatim>\<open>omit\<close>,
  and omitting only unknown names changes nothing. With an explicit include set it is
  the candidate names intersected with the include set, so that unknown names of the
  include set are dropped. With \<^verbatim>\<open>ALL_FIELDS\<close> and an empty \<^verbatim>\<open>omit\<close> it is the
  candidate names.
\<close>

theorem resolve_contract:
  assumes "process_field_options filter_fields omit_fields = Inr root"
    and "node_at root path = Some S"
  shows "(dr_fields S = ALL_FIELDS \<and> dr_omit S \<noteq> {} \<longrightarrow>
      (\<exists>fm'. derive_desired_fields S fm = Inr (set (map fst fm) - dr_omit S, fm'))) \<and>
   (dr_fields S = ALL_FIELDS \<and> dr_omit S \<noteq> {} \<and> dr_omit S \<inter> set (map fst fm) = {} \<longrightarrow>
      (\<exists>fm'. derive_desired_fields S fm = Inr (set (map fst fm), fm'))) \<and>
   (dr_fields S = FieldSet s \<longrightarrow>
      (\<exists>fm'. derive_desired_fields S fm = Inr (set (map fst fm) \<inter> s, fm'))) \<and>
   (dr_fields S = FieldSet (s \<union> u) \<and> u \<inter> set (map fst fm) = {} \<longrightarrow>
      (\<exists>fm'. derive_desired_fields S fm = Inr (set (map fst fm) \<inter> s, fm'))) \<and>
   (dr_fields S = ALL_FIELDS \<and> dr_omit S = {} \<longrightarrow>
      (\<exists>fm'. derive_desired_fields S fm = Inr (set (map fst fm), fm')))"
proof -
  define F where "F = set (map fst fm)"
  have "omit_mode S"
    using omit_mode_node_at [OF process_field_options_omit_mode [OF assms(1)] assms(2)] .
  then have inc: "dr_omit S = {}" if "dr_fields S = FieldSet x" for x
    using omit_mode_here [of S] that by auto
  obtain fm' where r: "derive_desired_fields S fm =
     Inr (if dr_omit S \<noteq> {} then F - dr_omit S
          else (case dr_fields S of ALL_FIELDS \<Rightarrow> F | FieldSet s \<Rightarrow> s \<inter> F), fm')"
    using derive_desired_fields_result unfolding F_def by blast
  show ?thesis
    unfolding F_def [symmetric]
    by (intro conjI impI; rule exI [of _ fm']; auto simp: r dest: inc)
qed

lemma split_zzz: "split ''zzz'' LOOKUP_SEP = [''zzz'']"
  by (simp add: split_def LOOKUP_SEP_def split_str.simps)

lemmas parser_eval = process_field_options_def process_filter_path_def process_omit_path_def
  omit_last_def suppress_def field_meta_ref_def fields_add_def fields_set_all_def omit_add_def
  nested_getitem_def dynamic_read_meta_def

lemma parse_include_a_zzz:
  "process_field_options [''a'', ''zzz''] [] = Inr (DrMeta (FieldSet ({''a''} \<union> {''zzz''})) {} [])"
  by (auto simp: parser_eval split_a split_zzz)

lemma parse_omit_a_b:
  "process_field_options [] [''a__b''] =
     Inr (DrMeta ALL_FIELDS {} [(''a'', DrMeta ALL_FIELDS {''b''} [])])"
  by (simp add: parser_eval split_a_b)

lemma parse_omit_zzz:
  "process_field_options [] [''zzz''] = Inr (DrMeta ALL_FIELDS {''zzz''} [])"
  by (simp add: parser_eval split_zzz)

theorem resolve_contract_witness:
  "process_field_options [''a'', ''zzz''] [] = Inr (DrMeta (FieldSet ({''a''} \<union> {''zzz''})) {} []) \<and>
   node_at (DrMeta (FieldSet ({''a''} \<union> {''zzz''})) {} []) [] =
     Some (DrMeta (FieldSet ({''a''} \<union> {''zzz''})) {} []) \<and>
   (\<exists>fm'. derive_desired_fields (DrMeta (FieldSet ({''a''} \<union> {''zzz''})) {} []) abc_fields =
      Inr (set (map fst abc_fields) \<inter> {''a''}, fm')) \<and>
   process_field_options [] [''a__b''] =
     Inr (DrMeta ALL_FIELDS {} [(''a'', DrMeta ALL_FIELDS {''b''} [])]) \<and>
   node_at (DrMeta ALL_FIELDS {} [(''a'', DrMeta ALL_FIELDS {''b''} [])]) [''a''] =
     Some (DrMeta ALL_FIELDS {''b''} []) \<and>
   (\<exists>fm'. derive_desired_fields (DrMeta ALL_FIELDS {''b''} []) abc_fields =
      Inr (set (map fst abc_fields) - {''b''}, fm')) \<and>
   (\<exists>fm'. derive_desired_fields (DrMeta ALL_FIELDS {} [(''a'', DrMeta ALL_FIELDS {''b''} [])])
      abc_fields = Inr (set (map fst abc_fields), fm')) \<and>
   process_field_options [] [''zzz''] = Inr (DrMeta ALL_FIELDS {''zzz''} []) \<and>
   (\<exists>fm'. derive_desired_fields (DrMeta ALL_FIELDS {''zzz''} []) abc_fields =
      Inr (set (map fst abc_fields), fm'))"
proof -
  have z: "{''zzz''} \<inter> set (map fst abc_fields) = {}" by (simp add: abc_fields_def)
  have n1: "node_at (DrMeta (FieldSet ({''a''} \<union> {''zzz''})) {} []) [] =
     Some (DrMeta (FieldSet ({''a''} \<union> {''zzz''})) {} [])"
    by simp
  have n2: "node_at (DrMeta ALL_FIELDS {} [(''a'', DrMeta ALL_FIELDS {''b''} [])]) [''a''] =
     Some (DrMeta ALL_FIELDS {''b''} [])"
    by simp
  have n3: "node_at (DrMeta ALL_FIELDS {} [(''a'', DrMeta ALL_FIELDS {''b''} [])]) [] =
     Some (DrMeta ALL_FIELDS {} [(''a'', DrMeta ALL_FIELDS {''b''} [])])"
    by simp
  have n4: "node_at (DrMeta ALL_FIELDS {''zzz''} []) [] = Some (DrMeta ALL_FIELDS {''zzz''} [])"
    by simp
  have 1: "\<exists>fm'. derive_desired_fields (DrMeta (FieldSet ({''a''} \<union> {''zzz''})) {} []) abc_fields =
      Inr (set (map fst abc_fields) \<inter> {''a''}, fm')"
    using resolve_contract [OF parse_include_a_zzz n1, where fm = abc_fields and s = "{''a''}"
        and u = "{''zzz''}"] z
    by simp
  have 2: "\<exists>fm'. derive_desired_fields (DrMeta ALL_FIELDS {''b''} []) abc_fields =
      Inr (set (map fst abc_fields) - {''b''}, fm')"
    using resolve_contract [OF parse_omit_a_b n2, where fm = abc_fields] by simp
  have 3: "\<exists>fm'. derive_desired_fields (DrMeta ALL_FIELDS {} [(''a'', DrMeta ALL_FIELDS {''b''} [])])
      abc_fields = Inr (set (map fst abc_fields), fm')"
    using resolve_contract [OF parse_omit_a_b n3, where fm = abc_fields] by simp
  have 4: "\<exists>fm'. derive_desired_fields (DrMeta ALL_FIELDS {''zzz''} []) abc_fields =
      Inr (set (map fst abc_fields), fm')"
    using resolve_contract [OF parse_omit_zzz n4, where fm = abc_fields] z by simp
  show ?thesis
    using parse_include_a_zzz n1 1 parse_omit_a_b n2 2 3 parse_omit_zzz 4 by blast
qed

end
